theory Spec2Isabelle
  imports Main "HOL-Library.Word"
begin

section \<open>Order.h: enumerations, scalar types, Order, Trade, requests\<close>

datatype Side = Buy | Sell

datatype OrderType = Limit | Market | IOC | FOK

datatype TimeInForce = GTC | TIF_IOC | TIF_FOK | DAY

datatype OrderStatus = New | PartiallyFilled | Filled | Cancelled | Rejected | Amended

text \<open>
  \<open>Price\<close> is \<open>int64_t\<close>; the book only copies and compares prices (signed), so it
  is an \<open>int\<close>. \<open>Quantity\<close>, \<open>OrderId\<close> and \<open>SeqNum\<close> are \<open>uint64_t\<close>: 64-bit
  words, whose \<open>+\<close> and \<open>-\<close> wrap around as the unsigned C++ arithmetic does.
  A \<open>Timestamp\<close> is a reading of \<open>std::chrono::steady_clock\<close>. An \<open>Order*\<close> is an
  \<open>addr option\<close>, \<open>None\<close> being \<open>nullptr\<close>.
\<close>

type_synonym Price = int
type_synonym Quantity = "64 word"
type_synonym OrderId = "64 word"
type_synonym SeqNum = "64 word"
type_synonym Timestamp = nat
type_synonym addr = nat

definition PRICE_MARKET :: Price where
  "PRICE_MARKET = 0"

text \<open>
  Field \<open>id\<close> is \<open>oid\<close> and \<open>type\<close> is \<open>order_type\<close> here; \<open>prev\<close>, \<open>next\<close> are
  \<open>prev_ptr\<close>, \<open>next_ptr\<close>.
\<close>

record Order =
  oid :: OrderId
  sequence :: SeqNum
  side :: Side
  order_type :: OrderType
  tif :: TimeInForce
  price :: Price
  quantity :: Quantity
  filled_qty :: Quantity
  leaves_qty :: Quantity
  entry_time :: Timestamp
  last_update :: Timestamp
  status :: OrderStatus
  prev_ptr :: "addr option"
  next_ptr :: "addr option"
  symbol :: string

text \<open>The value of \<open>Order{}\<close>: every member at its default initialiser.\<close>

definition default_Order :: Order where
  "default_Order =
     \<lparr> oid = 0, sequence = 0, side = Buy, order_type = Limit, tif = GTC, price = 0,
       quantity = 0, filled_qty = 0, leaves_qty = 0, entry_time = 0, last_update = 0,
       status = New, prev_ptr = None, next_ptr = None, symbol = [] \<rparr>"

definition is_buy :: "Order \<Rightarrow> bool" where
  "is_buy ord = (side ord = Buy)"

definition is_filled :: "Order \<Rightarrow> bool" where
  "is_filled ord = (leaves_qty ord = 0)"

definition is_active :: "Order \<Rightarrow> bool" where
  "is_active ord = (status ord = New \<or> status ord = PartiallyFilled)"

text \<open>\<open>Order::fill\<close> and \<open>Order::cancel\<close>; the argument \<open>t\<close> is what \<open>now()\<close> returns.\<close>

definition fill :: "Timestamp \<Rightarrow> Quantity \<Rightarrow> Order \<Rightarrow> Order" where
  "fill t qty ord =
     (let filled = filled_qty ord + qty;
          leaves = leaves_qty ord - qty
      in ord\<lparr> filled_qty := filled, leaves_qty := leaves, last_update := t,
              status := (if leaves = 0 then Filled else PartiallyFilled) \<rparr>)"

definition cancel :: "Timestamp \<Rightarrow> Order \<Rightarrow> Order" where
  "cancel t ord = ord\<lparr> status := Cancelled, leaves_qty := 0, last_update := t \<rparr>"

record Trade =
  trade_sequence :: SeqNum
  buy_order_id :: OrderId
  sell_order_id :: OrderId
  trade_price :: Price
  trade_quantity :: Quantity
  exec_time :: Timestamp
  aggressor :: Side
  trade_symbol :: string

record NewOrderRequest =
  req_id :: OrderId
  req_side :: Side
  req_type :: OrderType
  req_tif :: TimeInForce
  req_price :: Price
  req_quantity :: Quantity
  req_symbol :: string

record CancelRequest =
  cancel_order_id :: OrderId
  cancel_symbol :: string

record AmendRequest =
  amend_order_id :: OrderId
  new_price :: Price
  new_quantity :: Quantity
  amend_symbol :: string

section \<open>PriceLevel.h: the intrusive FIFO of one price\<close>

text \<open>
  The orders live in the arena, a store from addresses to \<open>Order\<close> values; a level holds
  \<open>head_\<close> and \<open>tail_\<close> and the orders hold the links, as in the source. Every queue
  operation therefore takes and returns the store together with the level.
\<close>

type_synonym store = "addr \<Rightarrow> Order"

record PriceLevel =
  level_price :: Price
  total_quantity :: Quantity
  order_count :: "32 word"
  head :: "addr option"
  tail :: "addr option"

definition new_PriceLevel :: "Price \<Rightarrow> PriceLevel" where
  "new_PriceLevel p =
     \<lparr> level_price = p, total_quantity = 0, order_count = 0, head = None, tail = None \<rparr>"

definition push_back :: "addr \<Rightarrow> store \<Rightarrow> PriceLevel \<Rightarrow> store \<times> PriceLevel" where
  "push_back a h lv =
     (let h1 = h(a := (h a)\<lparr> prev_ptr := tail lv, next_ptr := None \<rparr>);
          h2 = (case tail lv of
                  Some t \<Rightarrow> h1(t := (h1 t)\<lparr> next_ptr := Some a \<rparr>)
                | None \<Rightarrow> h1);
          lv1 = (case tail lv of Some t \<Rightarrow> lv | None \<Rightarrow> lv\<lparr> head := Some a \<rparr>)
      in (h2, lv1\<lparr> tail := Some a,
                    total_quantity := total_quantity lv + leaves_qty (h2 a),
                    order_count := order_count lv + 1 \<rparr>))"

definition remove :: "addr \<Rightarrow> store \<Rightarrow> PriceLevel \<Rightarrow> store \<times> PriceLevel" where
  "remove a h lv =
     (let h1 = (case prev_ptr (h a) of
                  Some p \<Rightarrow> h(p := (h p)\<lparr> next_ptr := next_ptr (h a) \<rparr>)
                | None \<Rightarrow> h);
          lv1 = (case prev_ptr (h a) of
                   Some p \<Rightarrow> lv
                 | None \<Rightarrow> lv\<lparr> head := next_ptr (h a) \<rparr>);
          h2 = (case next_ptr (h1 a) of
                  Some n \<Rightarrow> h1(n := (h1 n)\<lparr> prev_ptr := prev_ptr (h1 a) \<rparr>)
                | None \<Rightarrow> h1);
          lv2 = (case next_ptr (h1 a) of
                   Some n \<Rightarrow> lv1
                 | None \<Rightarrow> lv1\<lparr> tail := prev_ptr (h1 a) \<rparr>);
          h3 = h2(a := (h2 a)\<lparr> prev_ptr := None, next_ptr := None \<rparr>)
      in (h3, lv2\<lparr> total_quantity := total_quantity lv2 - leaves_qty (h3 a),
                    order_count := order_count lv2 - 1 \<rparr>))"

definition pop_front :: "store \<Rightarrow> PriceLevel \<Rightarrow> store \<times> PriceLevel" where
  "pop_front h lv =
     (case head lv of
        None \<Rightarrow> (h, lv)
      | Some a \<Rightarrow>
          (let h1 = (case next_ptr (h a) of
                       Some n \<Rightarrow> h(n := (h n)\<lparr> prev_ptr := None \<rparr>)
                     | None \<Rightarrow> h);
               lv1 = (case next_ptr (h a) of
                        Some n \<Rightarrow> lv\<lparr> head := Some n \<rparr>
                      | None \<Rightarrow> lv\<lparr> head := None, tail := None \<rparr>);
               lv2 = lv1\<lparr> total_quantity := total_quantity lv1 - leaves_qty (h1 a),
                          order_count := order_count lv1 - 1 \<rparr>
           in (h1(a := (h1 a)\<lparr> prev_ptr := None, next_ptr := None \<rparr>), lv2)))"

definition reduce_quantity :: "Quantity \<Rightarrow> PriceLevel \<Rightarrow> PriceLevel" where
  "reduce_quantity filled lv =
     (if filled > total_quantity lv then lv\<lparr> total_quantity := 0 \<rparr>
      else lv\<lparr> total_quantity := total_quantity lv - filled \<rparr>)"

definition empty_level :: "PriceLevel \<Rightarrow> bool" where
  "empty_level lv = (order_count lv = 0)"

text \<open>
  \<open>PriceLevel::Iterator\<close>: \<open>begin()\<close> is \<open>head_\<close>, \<open>++\<close> follows \<open>next\<close>, \<open>end()\<close> is
  \<open>nullptr\<close>. \<open>level_orders n h p\<close> lists at most \<open>n\<close> orders of the walk that starts at \<open>p\<close>.
\<close>

fun level_orders :: "nat \<Rightarrow> store \<Rightarrow> addr option \<Rightarrow> addr list" where
  "level_orders 0 h p = []"
| "level_orders (Suc n) h None = []"
| "level_orders (Suc n) h (Some a) = a # level_orders n h (next_ptr (h a))"

section \<open>OrderBook.h: the book\<close>

subsection \<open>\<open>std::map<Price, PriceLevel>\<close> as a list in ascending key order\<close>

type_synonym LevelMap = "(Price \<times> PriceLevel) list"

fun map_find :: "Price \<Rightarrow> LevelMap \<Rightarrow> PriceLevel option" where
  "map_find k [] = None"
| "map_find k ((k', v) # m) = (if k = k' then Some v else map_find k m)"

text \<open>
  \<open>map_put\<close> stores a level under its key, at the key's place in the order: what
  \<open>try_emplace\<close> followed by a write through the returned iterator leaves in the map, and
  what a write through a reference to a level of the map leaves there.
\<close>

fun map_put :: "Price \<Rightarrow> PriceLevel \<Rightarrow> LevelMap \<Rightarrow> LevelMap" where
  "map_put k v [] = [(k, v)]"
| "map_put k v ((k', v') # m) =
     (if k < k' then (k, v) # (k', v') # m
      else if k = k' then (k, v) # m
      else (k', v') # map_put k v m)"

fun map_erase :: "Price \<Rightarrow> LevelMap \<Rightarrow> LevelMap" where
  "map_erase k [] = []"
| "map_erase k ((k', v) # m) = (if k = k' then m else (k', v) # map_erase k m)"

text \<open>
  An iterator is the key it points at, or \<open>end()\<close>. Decrementing \<open>begin()\<close> is undefined
  behaviour, and \<open>end()\<close> of an empty map is its \<open>begin()\<close>: \<open>Invalid\<close> is what
  \<open>std::prev(m.end())\<close> yields then.
\<close>

datatype iterator = At Price | End | Invalid

definition map_begin :: "LevelMap \<Rightarrow> iterator" where
  "map_begin m = (case m of [] \<Rightarrow> End | (k, v) # m' \<Rightarrow> At k)"

definition std_prev_end :: "LevelMap \<Rightarrow> iterator" where
  "std_prev_end m = (if m = [] then Invalid else At (fst (last m)))"

subsection \<open>The state of a book\<close>

text \<open>
  \<open>arena\<close> and \<open>allocated\<close> are the \<open>ArenaAllocator\<close>: the book never deallocates, so the
  slot handed out by the \<open>k\<close>-th \<open>allocate()\<close> is address \<open>k\<close>. \<open>trades\<close> and
  \<open>order_updates\<close> are what the trade callback and the order callback have been called
  with, in order. \<open>clock_reads\<close> counts the calls of \<open>now()\<close>; the clock itself is a
  parameter \<open>clk\<close> of every operation, the \<open>n\<close>-th call returning \<open>clk n\<close>.
  \<open>invalid_iterators\<close> counts how often \<open>match_against\<close> has formed
  \<open>std::prev(end())\<close> of an empty map.
\<close>

type_synonym clock = "nat \<Rightarrow> Timestamp"

record OrderBook =
  book_symbol :: string
  bids :: LevelMap
  asks :: LevelMap
  order_index :: "OrderId \<Rightarrow> addr option"
  arena :: store
  allocated :: nat
  next_sequence :: SeqNum
  trade_count :: "64 word"
  total_volume :: "64 word"
  trades :: "Trade list"
  order_updates :: "Order list"
  clock_reads :: nat
  invalid_iterators :: nat

definition new_OrderBook :: "string \<Rightarrow> OrderBook" where
  "new_OrderBook nm =
     \<lparr> book_symbol = nm, bids = [], asks = [], order_index = (\<lambda>i. None),
       arena = (\<lambda>a. default_Order), allocated = 0, next_sequence = 1, trade_count = 0,
       total_volume = 0, trades = [], order_updates = [], clock_reads = 0,
       invalid_iterators = 0 \<rparr>"

text \<open>\<open>levels sd\<close> is \<open>bids_\<close> for \<open>Buy\<close> and \<open>asks_\<close> for \<open>Sell\<close>.\<close>

definition levels :: "Side \<Rightarrow> OrderBook \<Rightarrow> LevelMap" where
  "levels sd s = (case sd of Buy \<Rightarrow> bids s | Sell \<Rightarrow> asks s)"

definition set_levels :: "Side \<Rightarrow> LevelMap \<Rightarrow> OrderBook \<Rightarrow> OrderBook" where
  "set_levels sd m s = (case sd of Buy \<Rightarrow> s\<lparr> bids := m \<rparr> | Sell \<Rightarrow> s\<lparr> asks := m \<rparr>)"

text \<open>
  A call either returns, or dereferences a null \<open>Order*\<close> (\<open>level.front()\<close> of a level
  whose \<open>head_\<close> is null), or has not returned when the loop budget is spent.
\<close>

datatype fault = NullDeref

datatype 'a outcome = Returns 'a | Faults fault | OutOfFuel

subsection \<open>Matching\<close>

text \<open>\<open>incoming->fill(fill_qty); resting->fill(fill_qty);\<close> with the two readings of the clock.\<close>

definition fill_both ::
    "Timestamp \<Rightarrow> Timestamp \<Rightarrow> Quantity \<Rightarrow> addr \<Rightarrow> addr \<Rightarrow> store \<Rightarrow> store" where
  "fill_both t1 t2 qty inc r h =
     (let h1 = h(inc := fill t1 qty (h inc))
      in h1(r := fill t2 qty (h1 r)))"

text \<open>One pass of the body of the inner loop of \<open>match_against\<close>, for the resting order \<open>r\<close>.\<close>

definition execute_fill ::
    "clock \<Rightarrow> addr \<Rightarrow> addr \<Rightarrow> PriceLevel \<Rightarrow> OrderBook \<Rightarrow> PriceLevel \<times> OrderBook" where
  "execute_fill clk inc r lv s =
     (let h = arena s;
          fill_qty = min (leaves_qty (h inc)) (leaves_qty (h r));
          trade = \<lparr> trade_sequence = next_sequence s,
                    buy_order_id = (if is_buy (h inc) then oid (h inc) else oid (h r)),
                    sell_order_id = (if is_buy (h inc) then oid (h r) else oid (h inc)),
                    trade_price = price (h r),
                    trade_quantity = fill_qty,
                    exec_time = clk (clock_reads s),
                    aggressor = side (h inc),
                    trade_symbol = symbol (h inc) \<rparr>;
          lv1 = reduce_quantity fill_qty lv;
          h2 = fill_both (clk (Suc (clock_reads s))) (clk (Suc (Suc (clock_reads s))))
                 fill_qty inc r h;
          s1 = s\<lparr> arena := h2,
                  next_sequence := next_sequence s + 1,
                  clock_reads := clock_reads s + 3,
                  trades := trades s @ [trade],
                  order_updates := order_updates s @ [h2 r],
                  trade_count := trade_count s + 1,
                  total_volume := total_volume s + fill_qty \<rparr>
      in if is_filled (h2 r)
         then (case pop_front h2 lv1 of
                 (h3, lv2) \<Rightarrow>
                   (lv2, s1\<lparr> arena := h3,
                              order_index := (order_index s1)(oid (h3 r) := None) \<rparr>))
         else (lv1, s1))"

text \<open>
  The inner loop: \<open>while (incoming->leaves_qty > 0 && !level.empty())\<close>. The level is a
  reference into the contra map; nothing else reads the map during the loop, so the loop
  carries the level and the caller stores it back.
\<close>

fun match_level ::
    "nat \<Rightarrow> clock \<Rightarrow> addr \<Rightarrow> PriceLevel \<Rightarrow> OrderBook \<Rightarrow> (PriceLevel \<times> OrderBook) outcome" where
  "match_level 0 clk inc lv s = OutOfFuel"
| "match_level (Suc n) clk inc lv s =
     (if leaves_qty (arena s inc) > 0 \<and> \<not> empty_level lv
      then (case head lv of
              None \<Rightarrow> Faults NullDeref
            | Some r \<Rightarrow>
                (case execute_fill clk inc r lv s of
                   (lv', s') \<Rightarrow> match_level n clk inc lv' s'))
      else Returns (lv, s))"

text \<open>The outer loop: \<open>while (incoming->leaves_qty > 0 && !contra_side.empty())\<close>.\<close>

fun match_levels ::
    "nat \<Rightarrow> clock \<Rightarrow> addr \<Rightarrow> Side \<Rightarrow> (Price \<Rightarrow> Price \<Rightarrow> bool) \<Rightarrow> OrderBook
       \<Rightarrow> OrderBook outcome" where
  "match_levels 0 clk inc contra_side price_ok s = OutOfFuel"
| "match_levels (Suc n) clk inc contra_side price_ok s =
     (if leaves_qty (arena s inc) > 0 \<and> levels contra_side s \<noteq> []
      then (case (if is_buy (arena s inc) then hd (levels contra_side s)
                  else last (levels contra_side s)) of
              (k, lv) \<Rightarrow>
                if \<not> price_ok (price (arena s inc)) (level_price lv) then Returns s
                else (case match_level n clk inc lv s of
                        Returns (lv', s') \<Rightarrow>
                          match_levels n clk inc contra_side price_ok
                            (set_levels contra_side
                               (if empty_level lv'
                                then map_erase k (levels contra_side s')
                                else map_put k lv' (levels contra_side s'))
                               s')
                      | Faults f \<Rightarrow> Faults f
                      | OutOfFuel \<Rightarrow> OutOfFuel))
      else Returns s)"

text \<open>
  The initializer \<open>auto it = incoming->is_buy() ? contra_side.begin() :
  std::prev(contra_side.end())\<close> is evaluated before the loop tests
  \<open>!contra_side.empty()\<close>. The loop assigns \<open>it\<close> again before it reads it, so the value
  of the initializer is never used; when it is \<open>std::prev(end())\<close> of an empty map, which
  the language leaves undefined, the embedding records the event in \<open>invalid_iterators\<close>
  and goes on as the loop does.
\<close>

definition match_against ::
    "nat \<Rightarrow> clock \<Rightarrow> addr \<Rightarrow> Side \<Rightarrow> (Price \<Rightarrow> Price \<Rightarrow> bool) \<Rightarrow> OrderBook
       \<Rightarrow> OrderBook outcome" where
  "match_against fuel clk inc contra_side price_ok s =
     (let it = (if is_buy (arena s inc) then map_begin (levels contra_side s)
                else std_prev_end (levels contra_side s))
      in match_levels fuel clk inc contra_side price_ok
           (if it = Invalid then s\<lparr> invalid_iterators := Suc (invalid_iterators s) \<rparr>
            else s))"

text \<open>The range-for of \<open>can_fill_completely\<close>: ascending keys, for either side.\<close>

fun can_fill_walk :: "Order \<Rightarrow> Quantity \<Rightarrow> LevelMap \<Rightarrow> bool" where
  "can_fill_walk ord needed [] = (needed = 0)"
| "can_fill_walk ord needed ((p, lv) # m) =
     (if is_buy ord \<and> price ord < p \<and> price ord \<noteq> PRICE_MARKET then needed = 0
      else if \<not> is_buy ord \<and> price ord > p \<and> price ord \<noteq> PRICE_MARKET then needed = 0
      else (let needed' = needed - min needed (total_quantity lv)
            in if needed' = 0 then True else can_fill_walk ord needed' m))"

definition can_fill_completely :: "Order \<Rightarrow> OrderBook \<Rightarrow> bool" where
  "can_fill_completely ord s =
     can_fill_walk ord (leaves_qty ord) (if is_buy ord then asks s else bids s)"

definition buy_price_ok :: "Price \<Rightarrow> Price \<Rightarrow> bool" where
  "buy_price_ok order_price lvl_price = (order_price \<ge> lvl_price \<or> order_price = PRICE_MARKET)"

definition sell_price_ok :: "Price \<Rightarrow> Price \<Rightarrow> bool" where
  "sell_price_ok order_price lvl_price = (order_price \<le> lvl_price \<or> order_price = PRICE_MARKET)"

definition match :: "nat \<Rightarrow> clock \<Rightarrow> addr \<Rightarrow> OrderBook \<Rightarrow> OrderBook outcome" where
  "match fuel clk inc s =
     (if order_type (arena s inc) = FOK \<and> \<not> can_fill_completely (arena s inc) s
      then Returns s
      else if is_buy (arena s inc)
           then match_against fuel clk inc Sell buy_price_ok s
           else match_against fuel clk inc Buy sell_price_ok s)"

subsection \<open>Book management\<close>

text \<open>\<open>order->is_buy() ? bids_ : asks_\<close>: the side whose map holds the order's level.\<close>

definition own_side :: "Order \<Rightarrow> Side" where
  "own_side ord = (if is_buy ord then Buy else Sell)"

definition rest_order :: "addr \<Rightarrow> OrderBook \<Rightarrow> OrderBook" where
  "rest_order a s =
     (let sd = own_side (arena s a);
          k = price (arena s a);
          lv = (case map_find k (levels sd s) of Some l \<Rightarrow> l | None \<Rightarrow> new_PriceLevel k)
      in case push_back a (arena s) lv of
           (h', lv') \<Rightarrow> set_levels sd (map_put k lv' (levels sd s)) (s\<lparr> arena := h' \<rparr>))"

definition remove_from_book :: "addr \<Rightarrow> OrderBook \<Rightarrow> OrderBook" where
  "remove_from_book a s =
     (let sd = own_side (arena s a);
          k = price (arena s a)
      in case map_find k (levels sd s) of
           None \<Rightarrow> s
         | Some lv \<Rightarrow>
             (case remove a (arena s) lv of
                (h', lv') \<Rightarrow>
                  set_levels sd
                    (if empty_level lv' then map_erase k (levels sd s)
                     else map_put k lv' (levels sd s))
                    (s\<lparr> arena := h' \<rparr>)))"

subsection \<open>Order operations\<close>

text \<open>
  The order that \<open>add_order\<close> builds in the slot it has allocated: \<open>Order{}\<close>, then
  the assignments from the request; \<open>t\<close> is \<open>now()\<close> and \<open>sq\<close> the sequence number.
\<close>

definition new_Order :: "Timestamp \<Rightarrow> SeqNum \<Rightarrow> NewOrderRequest \<Rightarrow> Order" where
  "new_Order t sq req =
     default_Order\<lparr> oid := req_id req, sequence := sq,
       side := req_side req, order_type := req_type req, tif := req_tif req,
       price := req_price req, quantity := req_quantity req,
       leaves_qty := req_quantity req, filled_qty := 0, entry_time := t,
       last_update := t, status := New, symbol := req_symbol req \<rparr>"

text \<open>
  \<open>add_order\<close> up to and including the insertion into the id index: the order is built in
  the slot \<open>allocated s\<close>, which is the pointer the call returns.
\<close>

definition admit_order :: "clock \<Rightarrow> NewOrderRequest \<Rightarrow> OrderBook \<Rightarrow> OrderBook" where
  "admit_order clk req s =
     (let a = allocated s;
          ord = new_Order (clk (clock_reads s)) (next_sequence s) req
      in s\<lparr> allocated := Suc a,
             arena := (arena s)(a := ord),
             next_sequence := next_sequence s + 1,
             clock_reads := Suc (clock_reads s),
             order_index := (order_index s)(req_id req \<mapsto> a) \<rparr>)"

text \<open>The branch of \<open>add_order\<close> for \<open>Market\<close>, \<open>IOC\<close> and \<open>FOK\<close> with a remainder.\<close>

definition cancel_remainder :: "clock \<Rightarrow> addr \<Rightarrow> OrderBook \<Rightarrow> OrderBook" where
  "cancel_remainder clk a s =
     (let ord = cancel (clk (clock_reads s)) (arena s a)
      in s\<lparr> arena := (arena s)(a := ord),
             clock_reads := Suc (clock_reads s),
             order_index := (order_index s)(oid ord := None),
             order_updates := order_updates s @ [ord] \<rparr>)"

definition add_order ::
    "nat \<Rightarrow> clock \<Rightarrow> NewOrderRequest \<Rightarrow> OrderBook \<Rightarrow> (addr \<times> OrderBook) outcome" where
  "add_order fuel clk req s =
     (let a = allocated s
      in case match fuel clk a (admit_order clk req s) of
           Returns s' \<Rightarrow>
             if leaves_qty (arena s' a) > 0
             then (case order_type (arena s' a) of
                     Limit \<Rightarrow> Returns (a, rest_order a s')
                   | Market \<Rightarrow> Returns (a, cancel_remainder clk a s')
                   | IOC \<Rightarrow> Returns (a, cancel_remainder clk a s')
                   | FOK \<Rightarrow> Returns (a, cancel_remainder clk a s'))
             else Returns (a, s')
         | Faults f \<Rightarrow> Faults f
         | OutOfFuel \<Rightarrow> OutOfFuel)"

definition cancel_order :: "clock \<Rightarrow> OrderId \<Rightarrow> OrderBook \<Rightarrow> bool \<times> OrderBook" where
  "cancel_order clk i s =
     (case order_index s i of
        None \<Rightarrow> (False, s)
      | Some a \<Rightarrow>
          if \<not> is_active (arena s a) then (False, s)
          else (let s1 = remove_from_book a s;
                    ord = cancel (clk (clock_reads s1)) (arena s1 a)
                in (True, s1\<lparr> arena := (arena s1)(a := ord),
                              clock_reads := Suc (clock_reads s1),
                              order_index := (order_index s1)(i := None),
                              order_updates := order_updates s1 @ [ord] \<rparr>)))"

text \<open>
  The assignments to the order in the priority-losing branch of \<open>amend_order\<close>, and those
  in the branch that reduces the quantity.
\<close>

definition repriced :: "Timestamp \<Rightarrow> SeqNum \<Rightarrow> AmendRequest \<Rightarrow> Order \<Rightarrow> Order" where
  "repriced t sq req o1 =
     (let o2 = (if new_price req \<noteq> 0 then o1\<lparr> price := new_price req \<rparr> else o1);
          o3 = (if new_quantity req \<noteq> 0
                then o2\<lparr> quantity := new_quantity req,
                         leaves_qty := new_quantity req - filled_qty o2 \<rparr>
                else o2)
      in o3\<lparr> sequence := sq, status := Amended, last_update := t \<rparr>)"

definition reduced :: "Timestamp \<Rightarrow> AmendRequest \<Rightarrow> Order \<Rightarrow> Order" where
  "reduced t req o0 =
     (let reduction = leaves_qty o0 - new_quantity req
      in o0\<lparr> leaves_qty := new_quantity req, quantity := quantity o0 - reduction,
              status := Amended, last_update := t \<rparr>)"

text \<open>The three branches of \<open>amend_order\<close>, and the callback that follows each.\<close>

definition amend_reprice :: "clock \<Rightarrow> AmendRequest \<Rightarrow> addr \<Rightarrow> OrderBook \<Rightarrow> OrderBook" where
  "amend_reprice clk req a s =
     (let s1 = remove_from_book a s;
          ord = repriced (clk (clock_reads s1)) (next_sequence s1) req (arena s1 a)
      in s1\<lparr> arena := (arena s1)(a := ord),
              next_sequence := next_sequence s1 + 1,
              clock_reads := Suc (clock_reads s1) \<rparr>)"

definition amend_reduce :: "clock \<Rightarrow> AmendRequest \<Rightarrow> addr \<Rightarrow> OrderBook \<Rightarrow> OrderBook" where
  "amend_reduce clk req a s =
     (let reduction = leaves_qty (arena s a) - new_quantity req;
          ord = reduced (clk (clock_reads s)) req (arena s a);
          sd = own_side ord;
          s1 = s\<lparr> arena := (arena s)(a := ord), clock_reads := Suc (clock_reads s) \<rparr>
      in case map_find (price ord) (levels sd s1) of
           None \<Rightarrow> s1
         | Some lv \<Rightarrow>
             set_levels sd (map_put (price ord) (reduce_quantity reduction lv) (levels sd s1)) s1)"

definition notify_order :: "addr \<Rightarrow> OrderBook \<Rightarrow> OrderBook" where
  "notify_order a s = s\<lparr> order_updates := order_updates s @ [arena s a] \<rparr>"

definition amend_order ::
    "nat \<Rightarrow> clock \<Rightarrow> AmendRequest \<Rightarrow> OrderBook \<Rightarrow> (bool \<times> OrderBook) outcome" where
  "amend_order fuel clk req s =
     (case order_index s (amend_order_id req) of
        None \<Rightarrow> Returns (False, s)
      | Some a \<Rightarrow>
          if \<not> is_active (arena s a) then Returns (False, s)
          else (let price_changed =
                      (new_price req \<noteq> 0 \<and> new_price req \<noteq> price (arena s a));
                    qty_increased =
                      (new_quantity req \<noteq> 0 \<and> new_quantity req > leaves_qty (arena s a))
                in if price_changed \<or> qty_increased
                   then (case match fuel clk a (amend_reprice clk req a s) of
                           Returns s' \<Rightarrow>
                             Returns (True, notify_order a
                               (if leaves_qty (arena s' a) > 0 \<and> order_type (arena s' a) = Limit
                                then rest_order a s' else s'))
                         | Faults f \<Rightarrow> Faults f
                         | OutOfFuel \<Rightarrow> OutOfFuel)
                   else if new_quantity req \<noteq> 0 \<and> new_quantity req < leaves_qty (arena s a)
                        then Returns (True, notify_order a (amend_reduce clk req a s))
                        else Returns (True, notify_order a s)))"

subsection \<open>Book state queries and the invariant checks of the source\<close>

definition best_bid :: "OrderBook \<Rightarrow> Price option" where
  "best_bid s = (if bids s = [] then None else Some (fst (last (bids s))))"

definition best_ask :: "OrderBook \<Rightarrow> Price option" where
  "best_ask s = (if asks s = [] then None else Some (fst (hd (asks s))))"

definition check_no_crossed_book :: "OrderBook \<Rightarrow> bool" where
  "check_no_crossed_book s =
     (case best_bid s of
        None \<Rightarrow> True
      | Some bb \<Rightarrow> (case best_ask s of None \<Rightarrow> True | Some ba \<Rightarrow> bb < ba))"

subsection \<open>Request sequences\<close>

datatype Request = NewOrder NewOrderRequest | CancelOrder OrderId | AmendOrder AmendRequest

definition apply_request :: "nat \<Rightarrow> clock \<Rightarrow> Request \<Rightarrow> OrderBook \<Rightarrow> OrderBook outcome" where
  "apply_request fuel clk r s =
     (case r of
        NewOrder req \<Rightarrow>
          (case add_order fuel clk req s of
             Returns (a, s') \<Rightarrow> Returns s' | Faults f \<Rightarrow> Faults f | OutOfFuel \<Rightarrow> OutOfFuel)
      | CancelOrder i \<Rightarrow> Returns (snd (cancel_order clk i s))
      | AmendOrder req \<Rightarrow>
          (case amend_order fuel clk req s of
             Returns (b, s') \<Rightarrow> Returns s' | Faults f \<Rightarrow> Faults f | OutOfFuel \<Rightarrow> OutOfFuel))"

fun run :: "nat \<Rightarrow> clock \<Rightarrow> Request list \<Rightarrow> OrderBook \<Rightarrow> OrderBook outcome" where
  "run fuel clk [] s = Returns s"
| "run fuel clk (r # rs) s =
     (case apply_request fuel clk r s of
        Returns s' \<Rightarrow> run fuel clk rs s'
      | Faults f \<Rightarrow> Faults f
      | OutOfFuel \<Rightarrow> OutOfFuel)"

section \<open>MatchingEngine.h: the multi-symbol facade\<close>

record EngineStats =
  total_orders :: "64 word"
  total_cancels :: "64 word"
  total_amends :: "64 word"
  total_trades :: "64 word"
  stats_total_volume :: "64 word"
  total_rejects :: "64 word"
  active_orders :: "64 word"
  symbols_active :: "64 word"

text \<open>
  \<open>books\<close> is the \<open>unordered_map\<close> from symbol to book; \<open>global_trades\<close> is what the
  global trade callback has been called with.
\<close>

record MatchingEngine =
  books :: "string \<Rightarrow> OrderBook option"
  stats :: EngineStats
  global_trades :: "Trade list"

definition new_MatchingEngine :: MatchingEngine where
  "new_MatchingEngine =
     \<lparr> books = (\<lambda>nm. None),
       stats = \<lparr> total_orders = 0, total_cancels = 0, total_amends = 0, total_trades = 0,
                 stats_total_volume = 0, total_rejects = 0, active_orders = 0,
                 symbols_active = 0 \<rparr>,
       global_trades = [] \<rparr>"

text \<open>\<open>std::string sym(req.symbol, std::strlen(req.symbol))\<close>: the bytes before the first NUL.\<close>

definition c_string :: "string \<Rightarrow> string" where
  "c_string cs = takeWhile (\<lambda>c. c \<noteq> CHR 0x00) cs"

definition add_symbol :: "string \<Rightarrow> MatchingEngine \<Rightarrow> MatchingEngine" where
  "add_symbol nm e =
     (case books e nm of
        Some b \<Rightarrow> e
      | None \<Rightarrow> e\<lparr> books := (books e)(nm \<mapsto> new_OrderBook nm) \<rparr>)"

definition on_trade :: "MatchingEngine \<Rightarrow> Trade \<Rightarrow> MatchingEngine" where
  "on_trade e tr =
     e\<lparr> stats := (stats e)\<lparr> total_trades := total_trades (stats e) + 1,
                           stats_total_volume := stats_total_volume (stats e) + trade_quantity tr \<rparr>,
        global_trades := global_trades e @ [tr] \<rparr>"

text \<open>
  The book's trade callback is \<open>on_trade\<close>: after a call into book \<open>b\<close> that left it as
  \<open>b'\<close>, the engine has seen the trades that the call appended.
\<close>

definition book_returned :: "string \<Rightarrow> OrderBook \<Rightarrow> OrderBook \<Rightarrow> MatchingEngine \<Rightarrow> MatchingEngine" where
  "book_returned nm b b' e =
     foldl on_trade (e\<lparr> books := (books e)(nm \<mapsto> b') \<rparr>) (drop (length (trades b)) (trades b'))"

definition submit_order ::
    "nat \<Rightarrow> clock \<Rightarrow> NewOrderRequest \<Rightarrow> MatchingEngine \<Rightarrow> (addr option \<times> MatchingEngine) outcome" where
  "submit_order fuel clk req e =
     (case books e (c_string (req_symbol req)) of
        None \<Rightarrow>
          Returns (None, e\<lparr> stats := (stats e)\<lparr> total_rejects := total_rejects (stats e) + 1 \<rparr> \<rparr>)
      | Some b \<Rightarrow>
          (let e1 = e\<lparr> stats := (stats e)\<lparr> total_orders := total_orders (stats e) + 1 \<rparr> \<rparr>
           in case add_order fuel clk req b of
                Returns (a, b') \<Rightarrow>
                  Returns (Some a, book_returned (c_string (req_symbol req)) b b' e1)
              | Faults f \<Rightarrow> Faults f
              | OutOfFuel \<Rightarrow> OutOfFuel))"

definition engine_cancel_order :: "clock \<Rightarrow> CancelRequest \<Rightarrow> MatchingEngine \<Rightarrow> bool \<times> MatchingEngine" where
  "engine_cancel_order clk req e =
     (case books e (c_string (cancel_symbol req)) of
        None \<Rightarrow> (False, e)
      | Some b \<Rightarrow>
          (case cancel_order clk (cancel_order_id req) b of
             (success, b') \<Rightarrow>
               (let e1 = book_returned (c_string (cancel_symbol req)) b b' e
                in (success,
                    if success
                    then e1\<lparr> stats := (stats e1)\<lparr> total_cancels := total_cancels (stats e1) + 1 \<rparr> \<rparr>
                    else e1))))"

definition engine_amend_order ::
    "nat \<Rightarrow> clock \<Rightarrow> AmendRequest \<Rightarrow> MatchingEngine \<Rightarrow> (bool \<times> MatchingEngine) outcome" where
  "engine_amend_order fuel clk req e =
     (case books e (c_string (amend_symbol req)) of
        None \<Rightarrow> Returns (False, e)
      | Some b \<Rightarrow>
          (case amend_order fuel clk req b of
             Returns (success, b') \<Rightarrow>
               (let e1 = book_returned (c_string (amend_symbol req)) b b' e
                in Returns (success,
                     if success
                     then e1\<lparr> stats := (stats e1)\<lparr> total_amends := total_amends (stats e1) + 1 \<rparr> \<rparr>
                     else e1))
           | Faults f \<Rightarrow> Faults f
           | OutOfFuel \<Rightarrow> OutOfFuel))"

section \<open>Properties of a book\<close>

subsection \<open>The shape of the two maps\<close>

text \<open>
  A \<open>std::map\<close> holds its keys in strictly ascending order, and the book files every
  level under the level's own price. \<open>uncrossed\<close> is the invariant I1: every bid price
  is below every ask price.
\<close>

definition sorted_keys :: "LevelMap \<Rightarrow> bool" where
  "sorted_keys m = sorted_wrt (<) (map fst m)"

definition keyed :: "LevelMap \<Rightarrow> bool" where
  "keyed m = (\<forall>(k, lv) \<in> set m. level_price lv = k)"

definition ordered_book :: "OrderBook \<Rightarrow> bool" where
  "ordered_book s =
     (sorted_keys (bids s) \<and> sorted_keys (asks s) \<and> keyed (bids s) \<and> keyed (asks s))"

definition uncrossed :: "OrderBook \<Rightarrow> bool" where
  "uncrossed s = (\<forall>b \<in> fst ` set (bids s). \<forall>a \<in> fst ` set (asks s). b < a)"

definition book_inv :: "OrderBook \<Rightarrow> bool" where
  "book_inv s = (ordered_book s \<and> uncrossed s)"

text \<open>Two stores whose orders have the same price, side and type at every address.\<close>

definition same_terms :: "store \<Rightarrow> store \<Rightarrow> bool" where
  "same_terms h h' =
     (\<forall>a. price (h' a) = price (h a) \<and> side (h' a) = side (h a) \<and>
          order_type (h' a) = order_type (h a))"

definition opposite :: "Side \<Rightarrow> Side" where
  "opposite sd = (case sd of Buy \<Rightarrow> Sell | Sell \<Rightarrow> Buy)"

text \<open>
  What the outer loop of \<open>match_against\<close> has established when it is left: the incoming
  order is filled, or the contra side is empty, or its best level fails the price test.
\<close>

definition walk_done :: "addr \<Rightarrow> Side \<Rightarrow> (Price \<Rightarrow> Price \<Rightarrow> bool) \<Rightarrow> OrderBook \<Rightarrow> bool" where
  "walk_done inc cs ok s =
     (leaves_qty (arena s inc) = 0 \<or> levels cs s = [] \<or>
      \<not> ok (price (arena s inc))
           (fst (if is_buy (arena s inc) then hd (levels cs s) else last (levels cs s))))"

subsection \<open>A book without its clock readings\<close>

text \<open>
  \<open>untimed\<close> sets every value that came from \<open>now()\<close> to 0: \<open>entry_time\<close> and
  \<open>last_update\<close> of every order (in the arena and in the order callback's record) and
  \<open>exec_time\<close> of every trade. Two books with the same \<open>untimed\<close> image agree on
  everything else. \<open>still\<close> is the clock that always reads 0.
\<close>

definition untimed_order :: "Order \<Rightarrow> Order" where
  "untimed_order ord = ord\<lparr> entry_time := 0, last_update := 0 \<rparr>"

definition untimed_trade :: "Trade \<Rightarrow> Trade" where
  "untimed_trade t = t\<lparr> exec_time := 0 \<rparr>"

definition untimed :: "OrderBook \<Rightarrow> OrderBook" where
  "untimed s = s\<lparr> arena := untimed_order \<circ> arena s,
                  trades := map untimed_trade (trades s),
                  order_updates := map untimed_order (order_updates s) \<rparr>"

definition still :: clock where
  "still = (\<lambda>n. 0)"

text \<open>The members of a trade that the determinism test compares, and the sequence number.\<close>

definition trade_terms :: "Trade \<Rightarrow> Price \<times> Quantity \<times> OrderId \<times> OrderId \<times> SeqNum" where
  "trade_terms t =
     (trade_price t, trade_quantity t, buy_order_id t, sell_order_id t, trade_sequence t)"

text \<open>
  Two runs agree when both return, with the same trades in the same order (compared on
  \<open>trade_terms\<close>) and the same book up to clock readings, or both stop at the same fault,
  or both exhaust the loop budget.
\<close>

definition agree :: "OrderBook outcome \<Rightarrow> OrderBook outcome \<Rightarrow> bool" where
  "agree out1 out2 =
     (case out1 of
        Returns s1 \<Rightarrow>
          (case out2 of
             Returns s2 \<Rightarrow>
               map trade_terms (trades s1) = map trade_terms (trades s2) \<and>
               untimed s1 = untimed s2
           | Faults f2 \<Rightarrow> False
           | OutOfFuel \<Rightarrow> False)
      | Faults f1 \<Rightarrow> (case out2 of Returns s2 \<Rightarrow> False | Faults f2 \<Rightarrow> f1 = f2 | OutOfFuel \<Rightarrow> False)
      | OutOfFuel \<Rightarrow> (case out2 of Returns s2 \<Rightarrow> False | Faults f2 \<Rightarrow> False | OutOfFuel \<Rightarrow> True))"

subsection \<open>Reading a result\<close>

text \<open>\<open>returns_with out P\<close>: the call returned, and what it returned satisfies \<open>P\<close>.\<close>

definition returns_with :: "'a outcome \<Rightarrow> ('a \<Rightarrow> bool) \<Rightarrow> bool" where
  "returns_with out P = (case out of Returns x \<Rightarrow> P x | Faults f \<Rightarrow> False | OutOfFuel \<Rightarrow> False)"

definition fault_of :: "'a outcome \<Rightarrow> fault option" where
  "fault_of out = (case out of Returns x \<Rightarrow> None | Faults f \<Rightarrow> Some f | OutOfFuel \<Rightarrow> None)"

text \<open>
  Per level of a side, in key order: the orders linked into it (\<open>resting_orders\<close>), and
  its cached aggregates next to the \<open>leaves_qty\<close> of the orders linked into it
  (\<open>level_view\<close>). No level links more orders than the arena has handed out.
\<close>

definition resting_orders :: "OrderBook \<Rightarrow> LevelMap \<Rightarrow> (Price \<times> addr list) list" where
  "resting_orders s m =
     map (\<lambda>(p, lv). (p, level_orders (allocated s) (arena s) (head lv))) m"

definition level_view ::
    "OrderBook \<Rightarrow> LevelMap \<Rightarrow> (Price \<times> Quantity \<times> 32 word \<times> Quantity list) list" where
  "level_view s m =
     map (\<lambda>(p, lv). (p, total_quantity lv, order_count lv,
            map (\<lambda>a. leaves_qty (arena s a)) (level_orders (allocated s) (arena s) (head lv)))) m"

subsection \<open>The FOK pre-check as the specification words it\<close>

text \<open>
  ``Walk the contra side in the same direction [as matching, best price first] summing
  \<open>level.total_quantity\<close> while the price test holds'': the order can be covered when
  that sum reaches its \<open>leaves_qty\<close>. This is the specification's wording, to be compared
  with \<open>can_fill_completely\<close>, which is the source's.
\<close>

definition crossable :: "Order \<Rightarrow> Price \<times> PriceLevel \<Rightarrow> bool" where
  "crossable ord kv =
     (if is_buy ord then buy_price_ok (price ord) (fst kv) else sell_price_ok (price ord) (fst kv))"

definition best_first :: "Order \<Rightarrow> OrderBook \<Rightarrow> LevelMap" where
  "best_first ord s = (if is_buy ord then asks s else rev (bids s))"

definition spec_can_be_covered :: "Order \<Rightarrow> OrderBook \<Rightarrow> bool" where
  "spec_can_be_covered ord s =
     (unat (leaves_qty ord) \<le>
        sum_list (map (\<lambda>kv. unat (total_quantity (snd kv)))
                      (takeWhile (crossable ord) (best_first ord s))))"

section \<open>Scenarios\<close>

text \<open>Requests of the test suite's shape: symbol \<open>TEST\<close>, the other members as given.\<close>

definition test_order ::
    "OrderId \<Rightarrow> Side \<Rightarrow> OrderType \<Rightarrow> TimeInForce \<Rightarrow> Price \<Rightarrow> Quantity \<Rightarrow> NewOrderRequest" where
  "test_order i sd ty tf p q =
     \<lparr> req_id = i, req_side = sd, req_type = ty, req_tif = tf, req_price = p,
       req_quantity = q, req_symbol = ''TEST'' \<rparr>"

definition test_amend :: "OrderId \<Rightarrow> Price \<Rightarrow> Quantity \<Rightarrow> AmendRequest" where
  "test_amend i p q =
     \<lparr> amend_order_id = i, new_price = p, new_quantity = q, amend_symbol = ''TEST'' \<rparr>"

text \<open>What a trade reports of a fill: the buyer, the quantity and the price.\<close>

definition trade_report :: "Trade \<Rightarrow> OrderId \<times> Quantity \<times> Price" where
  "trade_report t = (buy_order_id t, trade_quantity t, trade_price t)"

text \<open>\<open>test_fifo_priority\<close>: ten buy limit orders, ids 1 to 10, at 10000 for 100 each.\<close>

definition fifo_buys :: "Request list" where
  "fifo_buys = map (\<lambda>i. NewOrder (test_order (of_nat i) Buy Limit GTC 10000 100)) [1..<11]"

definition fifo_sell :: NewOrderRequest where
  "fifo_sell = test_order 100 Sell Market TIF_IOC PRICE_MARKET 300"

text \<open>A bid at 100 and an ask at 105.\<close>

definition two_sided :: "Request list" where
  "two_sided =
     [NewOrder (test_order 1 Buy Limit GTC 100 10),
      NewOrder (test_order 2 Sell Limit GTC 105 10)]"

text \<open>A buy limit order for 500 at 10000, then amended down to 200: it keeps its place.\<close>

definition amended_resting :: "Request list" where
  "amended_resting =
     [NewOrder (test_order 1 Buy Limit GTC 10000 500), AmendOrder (test_amend 1 0 200)]"

text \<open>
  A buy limit order for 1000 at 10000, of which a sell order takes 900; the 100 left are
  then amended to a quantity of 200, which is more than 100 and less than 900.
\<close>

definition underflow_amend :: "Request list" where
  "underflow_amend =
     [NewOrder (test_order 1 Buy Limit GTC 10000 1000),
      NewOrder (test_order 2 Sell Limit GTC 10000 900),
      AmendOrder (test_amend 1 0 200)]"

text \<open>The same, and a second buy limit order for 1000 behind it at the same price.\<close>

definition crowded_level :: "Request list" where
  "crowded_level = underflow_amend @ [NewOrder (test_order 3 Buy Limit GTC 10000 1000)]"

definition sell_500 :: NewOrderRequest where
  "sell_500 = test_order 4 Sell Market TIF_IOC PRICE_MARKET 500"

text \<open>Bids of 50 at 90 and of 100 at 110; a sell order for 100 with limit 100.\<close>

definition two_bids :: "Request list" where
  "two_bids =
     [NewOrder (test_order 1 Buy Limit GTC 90 50), NewOrder (test_order 2 Buy Limit GTC 110 100)]"

definition fok_sell :: NewOrderRequest where
  "fok_sell = test_order 3 Sell FOK TIF_FOK 100 100"

definition ioc_sell :: NewOrderRequest where
  "ioc_sell = test_order 3 Sell IOC TIF_IOC 100 100"

text \<open>
  A buy limit order with id 1 rests at 100; a sell IOC order that reuses id 1 at 200 finds
  nothing to match and is cancelled.
\<close>

definition reused_id :: "Request list" where
  "reused_id =
     [NewOrder (test_order 1 Buy Limit GTC 100 10), NewOrder (test_order 1 Sell IOC TIF_IOC 200 5)]"

definition sell_10 :: NewOrderRequest where
  "sell_10 = test_order 2 Sell Market TIF_IOC PRICE_MARKET 10"

text \<open>The first order of a session, a sell limit order; and requests for an unknown symbol.\<close>

definition first_sell :: NewOrderRequest where
  "first_sell = test_order 1 Sell Limit GTC 100 10"

definition unknown_cancel :: CancelRequest where
  "unknown_cancel = \<lparr> cancel_order_id = 1, cancel_symbol = ''NONE'' \<rparr>"

definition unknown_amend :: AmendRequest where
  "unknown_amend = \<lparr> amend_order_id = 1, new_price = 0, new_quantity = 100, amend_symbol = ''NONE'' \<rparr>"

definition unknown_order :: NewOrderRequest where
  "unknown_order =
     \<lparr> req_id = 1, req_side = Buy, req_type = Limit, req_tif = GTC, req_price = 100,
       req_quantity = 10, req_symbol = ''NONE'' \<rparr>"

text \<open>
  Two buy limit orders rest at 100; a third, of quantity 0, is admitted and then
  cancelled.
\<close>

definition zero_quantity_cancel :: "Request list" where
  "zero_quantity_cancel =
     [NewOrder (test_order 1 Buy Limit GTC 100 10),
      NewOrder (test_order 3 Buy Limit GTC 100 10),
      NewOrder (test_order 2 Buy Limit GTC 100 0),
      CancelOrder 2]"

text \<open>
  No id is used twice here. Orders 10, 11, 12 rest at 100; cancelling three orders of
  quantity 0 at 100 empties the level's count, so the level is dropped with the three
  still chained. Order 12 is amended to 101, where it is filled by order 30. Three new
  orders rest at 100, and order 10 is cancelled.
\<close>

definition zero_quantity_phantom :: "Request list" where
  "zero_quantity_phantom =
     [NewOrder (test_order 10 Buy Limit GTC 100 10),
      NewOrder (test_order 11 Buy Limit GTC 100 10),
      NewOrder (test_order 12 Buy Limit GTC 100 10),
      NewOrder (test_order 21 Buy Limit GTC 100 0),
      NewOrder (test_order 22 Buy Limit GTC 100 0),
      NewOrder (test_order 23 Buy Limit GTC 100 0),
      CancelOrder 21, CancelOrder 22, CancelOrder 23,
      AmendOrder (test_amend 12 101 0),
      NewOrder (test_order 30 Sell Limit GTC 101 10),
      NewOrder (test_order 41 Buy Limit GTC 100 10),
      NewOrder (test_order 42 Buy Limit GTC 100 10),
      NewOrder (test_order 43 Buy Limit GTC 100 10),
      CancelOrder 10]"

definition sell_25 :: NewOrderRequest where
  "sell_25 = test_order 50 Sell Market TIF_IOC PRICE_MARKET 25"

text \<open>The concrete scenarios 2 to 5 of the specification's section 8.\<close>

definition resting_ask :: "Request list" where
  "resting_ask = [NewOrder (test_order 1 Sell Limit GTC 10005 100)]"

definition crossing_buy :: NewOrderRequest where
  "crossing_buy = test_order 2 Buy Limit GTC 10010 100"

definition two_asks :: "Request list" where
  "two_asks =
     [NewOrder (test_order 1 Sell Limit GTC 10001 50),
      NewOrder (test_order 3 Sell Limit GTC 10002 30)]"

definition fok_buy :: NewOrderRequest where
  "fok_buy = test_order 2 Buy FOK TIF_FOK 10002 100"

definition two_buys_500 :: "Request list" where
  "two_buys_500 =
     [NewOrder (test_order 1 Buy Limit GTC 10000 500),
      NewOrder (test_order 2 Buy Limit GTC 10000 500)]"

definition sell_300 :: NewOrderRequest where
  "sell_300 = test_order 3 Sell Market TIF_IOC PRICE_MARKET 300"

section \<open>The loop budget\<close>

text \<open>
  A call that returns within a budget returns the same with any larger one: the budget
  bounds the model's loops and decides nothing else.
\<close>

lemma match_level_fuel:
  "match_level n clk inc lv s = Returns x \<Longrightarrow> match_level (n + k) clk inc lv s = Returns x"
proof (induction n arbitrary: lv s)
  case 0
  then show ?case by simp
next
  case (Suc n)
  then show ?case
    by (auto split: if_splits option.splits prod.splits)
qed

lemma match_levels_fuel:
  "match_levels n clk inc cs ok s = Returns x
   \<Longrightarrow> match_levels (n + k) clk inc cs ok s = Returns x"
proof (induction n arbitrary: s)
  case 0
  then show ?case by simp
next
  case (Suc n)
  then show ?case
    by (auto split: if_splits prod.splits outcome.splits dest: match_level_fuel [where k = k])
qed

lemma match_fuel:
  "match n clk inc s = Returns x \<Longrightarrow> match (n + k) clk inc s = Returns x"
  by (auto simp: match_def match_against_def Let_def dest: match_levels_fuel [where k = k]
      split: if_splits)

lemma add_order_fuel:
  "add_order n clk req s = Returns x \<Longrightarrow> add_order (n + k) clk req s = Returns x"
  unfolding add_order_def Let_def
  by (auto split: outcome.splits dest: match_fuel [where k = k])

lemma amend_order_fuel:
  "amend_order n clk req s = Returns x \<Longrightarrow> amend_order (n + k) clk req s = Returns x"
  unfolding amend_order_def Let_def
  by (auto split: outcome.splits option.splits if_splits dest: match_fuel [where k = k])

lemma apply_request_fuel:
  "apply_request n clk r s = Returns x \<Longrightarrow> apply_request (n + k) clk r s = Returns x"
  unfolding apply_request_def
  by (auto split: Request.splits outcome.splits
      dest: add_order_fuel [where k = k] amend_order_fuel [where k = k])

lemma run_fuel:
  "run n clk rs s = Returns x \<Longrightarrow> run (n + k) clk rs s = Returns x"
proof (induction rs arbitrary: s)
  case Nil
  then show ?case by simp
next
  case (Cons r rs)
  then show ?case
    by (auto split: outcome.splits dest: apply_request_fuel [where k = k])
qed

section \<open>FIFO at equal price\<close>

lemma fifo_scenario_evaluated:
  "(case run 5 clk fifo_buys (new_OrderBook ''TEST'') of
      Returns s \<Rightarrow>
        trades s = [] \<and>
        (case add_order 5 clk fifo_sell s of
           Returns (a, s') \<Rightarrow>
             map trade_report (trades s') = [(1, 100, 10000), (2, 100, 10000), (3, 100, 10000)]
         | Faults f \<Rightarrow> False
         | OutOfFuel \<Rightarrow> False)
    | Faults f \<Rightarrow> False
    | OutOfFuel \<Rightarrow> False)"
  by code_simp

text \<open>
  C3. From an empty book, the ten buy limit orders with ids 1 to 10 at price 10000 for
  100 each rest without a trade; the sell market order for 300 that follows then
  produces exactly three trades, in this order: against buy order 1, then 2, then 3,
  each for 100 at price 10000. This holds for every clock and every loop budget from 5 up.
\<close>

theorem fifo_at_equal_price:
  "\<exists>s a s'.
     run (5 + k) clk fifo_buys (new_OrderBook ''TEST'') = Returns s \<and>
     trades s = [] \<and>
     add_order (5 + k) clk fifo_sell s = Returns (a, s') \<and>
     map trade_report (trades s') = [(1, 100, 10000), (2, 100, 10000), (3, 100, 10000)]"
proof -
  note ev = fifo_scenario_evaluated [of clk]
  obtain s where s: "run 5 clk fifo_buys (new_OrderBook ''TEST'') = Returns s"
    using ev by (cases "run 5 clk fifo_buys (new_OrderBook ''TEST'')") simp_all
  with ev have quiet: "trades s = []"
    by simp
  obtain a s' where s': "add_order 5 clk fifo_sell s = Returns (a, s')"
    using ev s by (cases "add_order 5 clk fifo_sell s") auto
  with ev s have "map trade_report (trades s') = [(1, 100, 10000), (2, 100, 10000), (3, 100, 10000)]"
    by simp
  with run_fuel [OF s, of k] add_order_fuel [OF s', of k] quiet show ?thesis
    by (intro exI [of _ s] exI [of _ a] exI [of _ s']) simp
qed

section \<open>No crossed book\<close>

lemma same_terms_refl: "same_terms h h"
  by (simp add: same_terms_def)

lemma same_terms_trans: "same_terms h h' \<Longrightarrow> same_terms h' h'' \<Longrightarrow> same_terms h h''"
  by (simp add: same_terms_def)

lemma keys_map_put: "fst ` set (map_put k v m) = insert k (fst ` set m)"
proof (induction m)
  case Nil
  then show ?case by simp
next
  case (Cons kv m)
  then show ?case
    by (cases kv) (simp add: insert_commute)
qed

lemma sorted_map_put: "sorted_keys m \<Longrightarrow> sorted_keys (map_put k v m)"
  unfolding sorted_keys_def
proof (induction m)
  case Nil
  then show ?case by simp
next
  case (Cons kv m)
  obtain k' v' where kv: "kv = (k', v')" by (cases kv)
  from Cons.prems have "sorted_wrt (<) (map fst m)" by simp
  then have IH: "sorted_wrt (<) (map fst (map_put k v m))" by (rule Cons.IH)
  have set_eq: "set (map fst (map_put k v m)) = insert k (fst ` set m)"
    using keys_map_put [of k v m] by simp
  show ?case
    using Cons.prems IH set_eq by (auto simp: kv)
qed

lemma keyed_map_put: "keyed m \<Longrightarrow> level_price v = k \<Longrightarrow> keyed (map_put k v m)"
  unfolding keyed_def by (induction m) (auto split: if_splits)

lemma set_map_erase: "set (map_erase k m) \<subseteq> set m"
  by (induction m) (auto split: if_splits)

lemma keys_map_erase: "fst ` set (map_erase k m) \<subseteq> fst ` set m"
  using set_map_erase by fastforce

lemma sorted_map_erase: "sorted_keys m \<Longrightarrow> sorted_keys (map_erase k m)"
  unfolding sorted_keys_def
proof (induction m)
  case Nil
  then show ?case by simp
next
  case (Cons kv m)
  then show ?case
    using keys_map_erase [of k m] by (cases kv) fastforce
qed

lemma keyed_map_erase: "keyed m \<Longrightarrow> keyed (map_erase k m)"
  unfolding keyed_def using set_map_erase by blast

lemma map_find_Some: "map_find k m = Some lv \<Longrightarrow> (k, lv) \<in> set m"
  by (induction m) (auto split: if_splits)

lemma sorted_keys_hd: "sorted_keys m \<Longrightarrow> k \<in> fst ` set m \<Longrightarrow> fst (hd m) \<le> k"
  unfolding sorted_keys_def by (cases m) auto

lemma sorted_keys_last: "sorted_keys m \<Longrightarrow> k \<in> fst ` set m \<Longrightarrow> k \<le> fst (last m)"
  unfolding sorted_keys_def
proof (induction m)
  case Nil
  then show ?case by simp
next
  case (Cons kv m)
  show ?case
  proof (cases m)
    case Nil
    with Cons.prems show ?thesis by simp
  next
    case (Cons kv' m')
    with Cons.prems Cons.IH show ?thesis
      by (force simp: less_imp_le)
  qed
qed

lemma keyed_hd: "keyed m \<Longrightarrow> m \<noteq> [] \<Longrightarrow> hd m = (k, lv) \<Longrightarrow> level_price lv = k"
  unfolding keyed_def by (cases m) auto

lemma keyed_last: "keyed m \<Longrightarrow> m \<noteq> [] \<Longrightarrow> last m = (k, lv) \<Longrightarrow> level_price lv = k"
  unfolding keyed_def using last_in_set by fastforce


lemma levels_set_levels:
  "levels sd (set_levels sd m s) = m"
  "levels (opposite sd) (set_levels sd m s) = levels (opposite sd) s"
  "arena (set_levels sd m s) = arena s"
  by (cases sd; simp add: levels_def set_levels_def opposite_def)+

lemma ordered_book_levels:
  "ordered_book s = (sorted_keys (levels sd s) \<and> keyed (levels sd s) \<and>
     sorted_keys (levels (opposite sd) s) \<and> keyed (levels (opposite sd) s))"
  by (cases sd) (auto simp: ordered_book_def levels_def opposite_def)

lemma fill_terms:
  "price (fill t q ord) = price ord" "side (fill t q ord) = side ord"
  "order_type (fill t q ord) = order_type ord"
  by (simp_all add: fill_def Let_def)

lemma push_back_frame:
  "push_back a h lv = (h', lv') \<Longrightarrow> level_price lv' = level_price lv \<and> same_terms h h'"
  by (auto simp: push_back_def Let_def same_terms_def split: option.splits)

lemma remove_frame:
  "remove a h lv = (h', lv') \<Longrightarrow> level_price lv' = level_price lv \<and> same_terms h h'"
  by (auto simp: remove_def Let_def same_terms_def split: option.splits)

lemma pop_front_frame:
  "pop_front h lv = (h', lv') \<Longrightarrow> level_price lv' = level_price lv \<and> same_terms h h'"
  by (auto simp: pop_front_def Let_def same_terms_def split: option.splits)

lemma reduce_quantity_price: "level_price (reduce_quantity q lv) = level_price lv"
  by (simp add: reduce_quantity_def)

lemma fill_both_terms: "same_terms h (fill_both t1 t2 q inc r h)"
  by (simp add: same_terms_def fill_both_def Let_def fill_terms)

lemma execute_fill_frame:
  assumes "execute_fill clk inc r lv s = (lv', s')"
  shows "level_price lv' = level_price lv \<and> bids s' = bids s \<and> asks s' = asks s \<and>
         same_terms (arena s) (arena s')"
proof -
  define q where "q = min (leaves_qty (arena s inc)) (leaves_qty (arena s r))"
  define h2 where "h2 = fill_both (clk (Suc (clock_reads s))) (clk (Suc (Suc (clock_reads s))))
      q inc r (arena s)"
  have t2: "same_terms (arena s) h2"
    by (simp add: h2_def fill_both_terms)
  show ?thesis
  proof (cases "is_filled (h2 r)")
    case True
    obtain h3 lv2 where pf: "pop_front h2 (reduce_quantity q lv) = (h3, lv2)"
      by (cases "pop_front h2 (reduce_quantity q lv)")
    from assms True pf
    have "lv' = lv2 \<and> bids s' = bids s \<and> asks s' = asks s \<and> arena s' = h3"
      by (auto simp: execute_fill_def Let_def q_def h2_def)
    with pop_front_frame [OF pf] t2 show ?thesis
      by (auto simp: reduce_quantity_price intro: same_terms_trans)
  next
    case False
    with assms
    have "lv' = reduce_quantity q lv \<and> bids s' = bids s \<and> asks s' = asks s \<and> arena s' = h2"
      by (auto simp: execute_fill_def Let_def q_def h2_def)
    with t2 show ?thesis
      by (simp add: reduce_quantity_price)
  qed
qed

lemma match_level_frame:
  "match_level n clk inc lv s = Returns (lv', s') \<Longrightarrow>
   level_price lv' = level_price lv \<and> bids s' = bids s \<and> asks s' = asks s \<and>
   same_terms (arena s) (arena s')"
proof (induction n arbitrary: lv s)
  case 0
  then show ?case by simp
next
  case (Suc n)
  show ?case
  proof (cases "leaves_qty (arena s inc) > 0 \<and> \<not> empty_level lv")
    case False
    with Suc.prems show ?thesis
      by (auto simp: same_terms_refl)
  next
    case True
    with Suc.prems obtain r where r: "head lv = Some r"
      by (cases "head lv") auto
    obtain lv1 s1 where ef: "execute_fill clk inc r lv s = (lv1, s1)"
      by (cases "execute_fill clk inc r lv s")
    with Suc.prems True r have "match_level n clk inc lv1 s1 = Returns (lv', s')"
      by simp
    from Suc.IH [OF this] execute_fill_frame [OF ef] show ?thesis
      by (auto intro: same_terms_trans)
  qed
qed


lemma same_terms_is_buy: "same_terms h h' \<Longrightarrow> is_buy (h' a) = is_buy (h a)"
  by (simp add: same_terms_def is_buy_def)

lemma match_levels_inv:
  "match_levels n clk inc cs ok s = Returns s' \<Longrightarrow> ordered_book s \<Longrightarrow>
   ordered_book s' \<and> same_terms (arena s) (arena s') \<and>
   levels (opposite cs) s' = levels (opposite cs) s \<and>
   fst ` set (levels cs s') \<subseteq> fst ` set (levels cs s) \<and>
   walk_done inc cs ok s'"
proof (induction n arbitrary: s)
  case 0
  then show ?case by simp
next
  case (Suc n)
  let ?m = "levels cs s"
  show ?case
  proof (cases "leaves_qty (arena s inc) > 0 \<and> ?m \<noteq> []")
    case False
    with Suc.prems have "s' = s" by auto
    with False Suc.prems show ?thesis
      by (auto simp: same_terms_refl walk_done_def word_gt_0)
  next
    case True
    obtain k lv where best: "(if is_buy (arena s inc) then hd ?m else last ?m) = (k, lv)"
      by (cases "if is_buy (arena s inc) then hd ?m else last ?m")
    from True have "hd ?m \<in> set ?m" "last ?m \<in> set ?m"
      by simp_all
    with best have mem: "(k, lv) \<in> set ?m"
      by (auto split: if_splits)
    from Suc.prems(2) have ob: "sorted_keys ?m" "keyed ?m"
        "sorted_keys (levels (opposite cs) s)" "keyed (levels (opposite cs) s)"
      using ordered_book_levels [of s cs] by simp_all
    from ob(2) mem have lp: "level_price lv = k"
      by (auto simp: keyed_def)
    show ?thesis
    proof (cases "ok (price (arena s inc)) (level_price lv)")
      case False
      with True best Suc.prems have "s' = s" by auto
      with False best lp Suc.prems show ?thesis
        by (auto simp: same_terms_refl walk_done_def)
    next
      case ok: True
      from True best ok Suc.prems(1) obtain lv1 s1 where
        ml: "match_level n clk inc lv s = Returns (lv1, s1)"
        by (cases "match_level n clk inc lv s") auto
      let ?m1 = "if empty_level lv1 then map_erase k (levels cs s1) else map_put k lv1 (levels cs s1)"
      let ?s2 = "set_levels cs ?m1 s1"
      from True best ok ml Suc.prems(1) have rec: "match_levels n clk inc cs ok ?s2 = Returns s'"
        by simp
      from match_level_frame [OF ml] have fr: "level_price lv1 = k" "bids s1 = bids s"
          "asks s1 = asks s" "same_terms (arena s) (arena s1)"
        using lp by simp_all
      from fr(2,3) have same: "levels cs s1 = ?m" "levels (opposite cs) s1 = levels (opposite cs) s"
        by (simp_all add: levels_def split: Side.splits)
      have ob2: "ordered_book ?s2"
        using ob fr(1) same
        by (simp add: ordered_book_levels [of _ cs] levels_set_levels sorted_map_erase
            sorted_map_put keyed_map_erase keyed_map_put)
      from mem have "k \<in> fst ` set ?m"
        by force
      then have keys2: "fst ` set (levels cs ?s2) \<subseteq> fst ` set ?m"
        using keys_map_erase [of k ?m] keys_map_put [of k lv1 ?m] same
        by (auto simp: levels_set_levels)
      note ih = Suc.IH [OF rec ob2]
      from ih have "fst ` set (levels cs s') \<subseteq> fst ` set (levels cs ?s2)"
        by simp
      with keys2 have keys: "fst ` set (levels cs s') \<subseteq> fst ` set ?m"
        by (rule subset_trans [rotated])
      from ih fr(4) have "same_terms (arena s) (arena s')"
        by (auto simp: levels_set_levels intro: same_terms_trans)
      with ih keys same show ?thesis
        by (simp add: levels_set_levels)
    qed
  qed
qed


lemma uncrossed_subset:
  "uncrossed s \<Longrightarrow> fst ` set (bids s') \<subseteq> fst ` set (bids s) \<Longrightarrow>
   fst ` set (asks s') \<subseteq> fst ` set (asks s) \<Longrightarrow> uncrossed s'"
  unfolding uncrossed_def by blast

lemma match_against_inv:
  assumes "match_against n clk inc cs ok s = Returns s'" "ordered_book s"
  shows "ordered_book s' \<and> same_terms (arena s) (arena s') \<and>
         levels (opposite cs) s' = levels (opposite cs) s \<and>
         fst ` set (levels cs s') \<subseteq> fst ` set (levels cs s) \<and> walk_done inc cs ok s'"
proof -
  let ?s0 = "s\<lparr> invalid_iterators := Suc (invalid_iterators s) \<rparr>"
  have eq: "ordered_book ?s0" "arena ?s0 = arena s" "levels sd ?s0 = levels sd s" for sd
    using assms(2) by (simp_all add: ordered_book_def levels_def split: Side.splits)
  from assms(1) have "match_levels n clk inc cs ok s = Returns s' \<or>
      match_levels n clk inc cs ok ?s0 = Returns s'"
    by (auto simp: match_against_def Let_def split: if_splits)
  then show ?thesis
  proof
    assume "match_levels n clk inc cs ok s = Returns s'"
    from match_levels_inv [OF this assms(2)] show ?thesis .
  next
    assume "match_levels n clk inc cs ok ?s0 = Returns s'"
    from match_levels_inv [OF this eq(1)] show ?thesis
      by (simp add: eq)
  qed
qed

text \<open>What \<open>match\<close> leaves for a limit order that buys, and for one that sells.\<close>

lemma match_buy_inv:
  assumes "match n clk inc s = Returns s'" "ordered_book s" "is_buy (arena s inc)"
  shows "ordered_book s' \<and> same_terms (arena s) (arena s') \<and> bids s' = bids s \<and>
         fst ` set (asks s') \<subseteq> fst ` set (asks s) \<and>
         (order_type (arena s inc) = Limit \<longrightarrow> leaves_qty (arena s' inc) \<noteq> 0 \<longrightarrow>
            (\<forall>k \<in> fst ` set (asks s'). price (arena s' inc) < k))"
proof (cases "order_type (arena s inc) = FOK \<and> \<not> can_fill_completely (arena s inc) s")
  case True
  with assms show ?thesis
    by (auto simp: match_def same_terms_refl)
next
  case False
  with assms have ma: "match_against n clk inc Sell buy_price_ok s = Returns s'"
    by (auto simp: match_def)
  note inv = match_against_inv [OF ma assms(2)]
  then have ob: "ordered_book s'" and st: "same_terms (arena s) (arena s')"
    and own: "bids s' = bids s" and keys: "fst ` set (asks s') \<subseteq> fst ` set (asks s)"
    and wd: "walk_done inc Sell buy_price_ok s'"
    by (simp_all add: levels_def opposite_def)
  have "price (arena s' inc) < k"
    if "leaves_qty (arena s' inc) \<noteq> 0" "k \<in> fst ` set (asks s')" for k
  proof -
    from that(2) have ne: "asks s' \<noteq> []" by auto
    from st assms(3) have "is_buy (arena s' inc)"
      by (simp add: same_terms_is_buy)
    with wd that(1) ne have "price (arena s' inc) < fst (hd (asks s'))"
      by (auto simp: walk_done_def levels_def buy_price_ok_def)
    moreover from ob that(2) have "fst (hd (asks s')) \<le> k"
      by (auto simp: ordered_book_def intro: sorted_keys_hd)
    ultimately show ?thesis by simp
  qed
  with ob st own keys show ?thesis
    by blast
qed

lemma match_sell_inv:
  assumes "match n clk inc s = Returns s'" "ordered_book s" "\<not> is_buy (arena s inc)"
  shows "ordered_book s' \<and> same_terms (arena s) (arena s') \<and> asks s' = asks s \<and>
         fst ` set (bids s') \<subseteq> fst ` set (bids s) \<and>
         (order_type (arena s inc) = Limit \<longrightarrow> leaves_qty (arena s' inc) \<noteq> 0 \<longrightarrow>
            (\<forall>k \<in> fst ` set (bids s'). k < price (arena s' inc)))"
proof (cases "order_type (arena s inc) = FOK \<and> \<not> can_fill_completely (arena s inc) s")
  case True
  with assms show ?thesis
    by (auto simp: match_def same_terms_refl)
next
  case False
  with assms have ma: "match_against n clk inc Buy sell_price_ok s = Returns s'"
    by (auto simp: match_def)
  note inv = match_against_inv [OF ma assms(2)]
  then have ob: "ordered_book s'" and st: "same_terms (arena s) (arena s')"
    and own: "asks s' = asks s" and keys: "fst ` set (bids s') \<subseteq> fst ` set (bids s)"
    and wd: "walk_done inc Buy sell_price_ok s'"
    by (simp_all add: levels_def opposite_def)
  have "k < price (arena s' inc)"
    if "leaves_qty (arena s' inc) \<noteq> 0" "k \<in> fst ` set (bids s')" for k
  proof -
    from that(2) have ne: "bids s' \<noteq> []" by auto
    from st assms(3) have "\<not> is_buy (arena s' inc)"
      by (simp add: same_terms_is_buy)
    with wd that(1) ne have "fst (last (bids s')) < price (arena s' inc)"
      by (auto simp: walk_done_def levels_def sell_price_ok_def)
    moreover from ob that(2) have "k \<le> fst (last (bids s'))"
      by (auto simp: ordered_book_def intro: sorted_keys_last)
    ultimately show ?thesis by simp
  qed
  with ob st own keys show ?thesis
    by blast
qed


lemma levels_arena_update: "levels sd (s\<lparr> arena := h \<rparr>) = levels sd s"
  by (simp add: levels_def split: Side.splits)

lemma rest_order_inv:
  assumes "ordered_book s"
  shows "ordered_book (rest_order a s) \<and> same_terms (arena s) (arena (rest_order a s)) \<and>
         levels (opposite (own_side (arena s a))) (rest_order a s) =
           levels (opposite (own_side (arena s a))) s \<and>
         fst ` set (levels (own_side (arena s a)) (rest_order a s)) =
           insert (price (arena s a)) (fst ` set (levels (own_side (arena s a)) s))"
proof -
  let ?sd = "own_side (arena s a)"
  let ?k = "price (arena s a)"
  let ?lv = "case map_find ?k (levels ?sd s) of Some l \<Rightarrow> l | None \<Rightarrow> new_PriceLevel ?k"
  obtain h' lv' where pb: "push_back a (arena s) ?lv = (h', lv')"
    by (cases "push_back a (arena s) ?lv")
  then have ro: "rest_order a s = set_levels ?sd (map_put ?k lv' (levels ?sd s)) (s\<lparr> arena := h' \<rparr>)"
    by (simp add: rest_order_def Let_def)
  from assms have ob: "sorted_keys (levels ?sd s)" "keyed (levels ?sd s)"
      "sorted_keys (levels (opposite ?sd) s)" "keyed (levels (opposite ?sd) s)"
    using ordered_book_levels [of s ?sd] by simp_all
  have "level_price ?lv = ?k"
    using ob(2) by (auto simp: keyed_def new_PriceLevel_def dest: map_find_Some split: option.splits)
  with push_back_frame [OF pb] have lp: "level_price lv' = ?k" and st: "same_terms (arena s) h'"
    by simp_all
  show ?thesis
    unfolding ro using ob lp st
    by (simp add: ordered_book_levels [of _ ?sd] levels_set_levels levels_arena_update
        sorted_map_put keyed_map_put keys_map_put)
qed

lemma remove_from_book_inv:
  assumes "ordered_book s"
  shows "ordered_book (remove_from_book a s) \<and>
         same_terms (arena s) (arena (remove_from_book a s)) \<and>
         fst ` set (bids (remove_from_book a s)) \<subseteq> fst ` set (bids s) \<and>
         fst ` set (asks (remove_from_book a s)) \<subseteq> fst ` set (asks s)"
proof -
  let ?sd = "own_side (arena s a)"
  let ?k = "price (arena s a)"
  have keys_levels: "fst ` set (bids t) \<subseteq> fst ` set (bids s) \<and>
      fst ` set (asks t) \<subseteq> fst ` set (asks s)"
    if "levels (opposite ?sd) t = levels (opposite ?sd) s"
       "fst ` set (levels ?sd t) \<subseteq> fst ` set (levels ?sd s)" for t
    using that by (cases ?sd) (simp_all add: levels_def opposite_def)
  show ?thesis
  proof (cases "map_find ?k (levels ?sd s)")
    case None
    then have "remove_from_book a s = s"
      by (simp add: remove_from_book_def Let_def)
    with assms show ?thesis
      by (simp add: same_terms_refl)
  next
    case (Some lv)
    obtain h' lv' where rm: "remove a (arena s) lv = (h', lv')"
      by (cases "remove a (arena s) lv")
    let ?m = "if empty_level lv' then map_erase ?k (levels ?sd s) else map_put ?k lv' (levels ?sd s)"
    from Some rm have rb: "remove_from_book a s = set_levels ?sd ?m (s\<lparr> arena := h' \<rparr>)"
      by (simp add: remove_from_book_def Let_def)
    from assms have ob: "sorted_keys (levels ?sd s)" "keyed (levels ?sd s)"
        "sorted_keys (levels (opposite ?sd) s)" "keyed (levels (opposite ?sd) s)"
      using ordered_book_levels [of s ?sd] by simp_all
    from Some have mem: "(?k, lv) \<in> set (levels ?sd s)"
      by (rule map_find_Some)
    with ob(2) have "level_price lv = ?k"
      by (auto simp: keyed_def)
    with remove_frame [OF rm] have lp: "level_price lv' = ?k" and st: "same_terms (arena s) h'"
      by simp_all
    from mem have "?k \<in> fst ` set (levels ?sd s)"
      by force
    then have keys: "fst ` set ?m \<subseteq> fst ` set (levels ?sd s)"
      using keys_map_erase [of ?k "levels ?sd s"] keys_map_put [of ?k lv' "levels ?sd s"]
      by auto
    have "ordered_book (remove_from_book a s)"
      unfolding rb using ob lp
      by (simp add: ordered_book_levels [of _ ?sd] levels_set_levels levels_arena_update
          sorted_map_put keyed_map_put sorted_map_erase keyed_map_erase)
    moreover have "same_terms (arena s) (arena (remove_from_book a s))"
      unfolding rb using st by (simp add: levels_set_levels)
    moreover have "fst ` set (bids (remove_from_book a s)) \<subseteq> fst ` set (bids s) \<and>
        fst ` set (asks (remove_from_book a s)) \<subseteq> fst ` set (asks s)"
      by (rule keys_levels) (use keys in \<open>simp_all add: rb levels_set_levels levels_arena_update\<close>)
    ultimately show ?thesis by blast
  qed
qed


lemma match_book_inv:
  assumes "match n clk inc s = Returns s'" "book_inv s"
  shows "book_inv s' \<and> same_terms (arena s) (arena s') \<and>
         (order_type (arena s inc) = Limit \<longrightarrow> leaves_qty (arena s' inc) \<noteq> 0 \<longrightarrow>
            book_inv (rest_order inc s'))"
proof (cases "is_buy (arena s inc)")
  case True
  from assms(2) have ob: "ordered_book s" and uc: "uncrossed s"
    by (simp_all add: book_inv_def)
  note m = match_buy_inv [OF assms(1) ob True]
  then have ob': "ordered_book s'" and st: "same_terms (arena s) (arena s')" by simp_all
  from m have "fst ` set (bids s') \<subseteq> fst ` set (bids s)"
      "fst ` set (asks s') \<subseteq> fst ` set (asks s)"
    by simp_all
  with uc have uc': "uncrossed s'"
    by (rule uncrossed_subset)
  from st True have own: "own_side (arena s' inc) = Buy"
    by (simp add: own_side_def same_terms_is_buy)
  have "book_inv (rest_order inc s')"
    if "order_type (arena s inc) = Limit" "leaves_qty (arena s' inc) \<noteq> 0"
  proof -
    from m that have below: "\<forall>k \<in> fst ` set (asks s'). price (arena s' inc) < k"
      by blast
    from rest_order_inv [OF ob', of inc] own
    have r: "ordered_book (rest_order inc s')" "asks (rest_order inc s') = asks s'"
        "fst ` set (bids (rest_order inc s')) = insert (price (arena s' inc)) (fst ` set (bids s'))"
      by (simp_all add: levels_def opposite_def)
    from uc' below have "uncrossed (rest_order inc s')"
      unfolding uncrossed_def r(2,3) by blast
    with r(1) show ?thesis
      by (simp add: book_inv_def)
  qed
  with ob' uc' st show ?thesis
    by (simp add: book_inv_def)
next
  case False
  from assms(2) have ob: "ordered_book s" and uc: "uncrossed s"
    by (simp_all add: book_inv_def)
  note m = match_sell_inv [OF assms(1) ob False]
  then have ob': "ordered_book s'" and st: "same_terms (arena s) (arena s')" by simp_all
  from m have "fst ` set (bids s') \<subseteq> fst ` set (bids s)"
      "fst ` set (asks s') \<subseteq> fst ` set (asks s)"
    by simp_all
  with uc have uc': "uncrossed s'"
    by (rule uncrossed_subset)
  from st False have own: "own_side (arena s' inc) = Sell"
    by (simp add: own_side_def same_terms_is_buy)
  have "book_inv (rest_order inc s')"
    if "order_type (arena s inc) = Limit" "leaves_qty (arena s' inc) \<noteq> 0"
  proof -
    from m that have above: "\<forall>k \<in> fst ` set (bids s'). k < price (arena s' inc)"
      by blast
    from rest_order_inv [OF ob', of inc] own
    have r: "ordered_book (rest_order inc s')" "bids (rest_order inc s') = bids s'"
        "fst ` set (asks (rest_order inc s')) = insert (price (arena s' inc)) (fst ` set (asks s'))"
      by (simp_all add: levels_def opposite_def)
    from uc' above have "uncrossed (rest_order inc s')"
      unfolding uncrossed_def r(2,3) by blast
    with r(1) show ?thesis
      by (simp add: book_inv_def)
  qed
  with ob' uc' st show ?thesis
    by (simp add: book_inv_def)
qed

lemma book_inv_cong:
  "book_inv s \<Longrightarrow> bids s' = bids s \<Longrightarrow> asks s' = asks s \<Longrightarrow> book_inv s'"
  by (simp add: book_inv_def ordered_book_def uncrossed_def)

lemma add_order_inv:
  assumes "add_order n clk req s = Returns (a, s')" "book_inv s"
  shows "book_inv s'"
proof -
  let ?a = "allocated s"
  let ?s0 = "admit_order clk req s"
  have s0: "book_inv ?s0"
    using assms(2) by (rule book_inv_cong) (simp_all add: admit_order_def Let_def)
  have ty: "order_type (arena ?s0 ?a) = req_type req"
    by (simp add: admit_order_def new_Order_def Let_def)
  from assms(1) obtain s1 where m: "match n clk ?a ?s0 = Returns s1"
    by (cases "match n clk ?a ?s0") (auto simp: add_order_def Let_def)
  note inv = match_book_inv [OF m s0]
  then have s1: "book_inv s1" and st: "same_terms (arena ?s0) (arena s1)" by simp_all
  from st ty have ty1: "order_type (arena s1 ?a) = req_type req"
    by (simp add: same_terms_def)
  have cr: "book_inv (cancel_remainder clk ?a s1)"
    using s1 by (rule book_inv_cong) (simp_all add: cancel_remainder_def Let_def)
  show ?thesis
  proof (cases "leaves_qty (arena s1 ?a) > 0")
    case False
    with assms(1) m have "s' = s1"
      by (auto simp: add_order_def Let_def)
    with s1 show ?thesis by simp
  next
    case True
    then have nz: "leaves_qty (arena s1 ?a) \<noteq> 0" by auto
    show ?thesis
    proof (cases "req_type req")
      case Limit
      with assms(1) m True ty1 have "s' = rest_order ?a s1"
        by (auto simp: add_order_def Let_def)
      with inv ty Limit nz show ?thesis by simp
    next
      case Market
      with assms(1) m True ty1 have "s' = cancel_remainder clk ?a s1"
        by (auto simp: add_order_def Let_def)
      with cr show ?thesis by simp
    next
      case IOC
      with assms(1) m True ty1 have "s' = cancel_remainder clk ?a s1"
        by (auto simp: add_order_def Let_def)
      with cr show ?thesis by simp
    next
      case FOK
      with assms(1) m True ty1 have "s' = cancel_remainder clk ?a s1"
        by (auto simp: add_order_def Let_def)
      with cr show ?thesis by simp
    qed
  qed
qed

lemma remove_from_book_book_inv:
  "book_inv s \<Longrightarrow> book_inv (remove_from_book a s)"
  using remove_from_book_inv [of s a] uncrossed_subset [of s "remove_from_book a s"]
  by (simp add: book_inv_def)

lemma cancel_order_inv:
  assumes "cancel_order clk i s = (b, s')" "book_inv s"
  shows "book_inv s'"
proof (cases "order_index s i")
  case None
  with assms show ?thesis by (simp add: cancel_order_def)
next
  case (Some a)
  show ?thesis
  proof (cases "is_active (arena s a)")
    case False
    with Some assms show ?thesis by (simp add: cancel_order_def)
  next
    case True
    from assms(2) have "book_inv (remove_from_book a s)"
      by (rule remove_from_book_book_inv)
    then show ?thesis
      by (rule book_inv_cong) (use Some True assms(1) in \<open>auto simp: cancel_order_def Let_def\<close>)
  qed
qed


lemma book_inv_put:
  assumes "book_inv s" "map_find k (levels sd s) = Some lv" "level_price lv' = level_price lv"
  shows "book_inv (set_levels sd (map_put k lv' (levels sd s)) s)"
proof -
  let ?t = "set_levels sd (map_put k lv' (levels sd s)) s"
  from assms(1) have ob: "sorted_keys (levels sd s)" "keyed (levels sd s)"
      "sorted_keys (levels (opposite sd) s)" "keyed (levels (opposite sd) s)"
    using ordered_book_levels [of s sd] by (simp_all add: book_inv_def)
  from assms(2) have mem: "(k, lv) \<in> set (levels sd s)"
    by (rule map_find_Some)
  with ob(2) assms(3) have lp: "level_price lv' = k"
    by (auto simp: keyed_def)
  from mem have "k \<in> fst ` set (levels sd s)"
    by force
  then have keys: "fst ` set (levels sd ?t) = fst ` set (levels sd s)"
    by (auto simp: levels_set_levels keys_map_put)
  have other: "levels (opposite sd) ?t = levels (opposite sd) s"
    by (simp add: levels_set_levels)
  have "ordered_book ?t"
    using ob lp
    by (simp add: ordered_book_levels [of _ sd] levels_set_levels sorted_map_put keyed_map_put)
  moreover from keys other have "fst ` set (bids ?t) = fst ` set (bids s)"
      "fst ` set (asks ?t) = fst ` set (asks s)"
    by (cases sd; simp add: levels_def opposite_def)+
  with assms(1) have "uncrossed ?t"
    by (simp add: book_inv_def uncrossed_def)
  ultimately show ?thesis
    by (simp add: book_inv_def)
qed

lemma amend_reduce_inv:
  assumes "book_inv s"
  shows "book_inv (amend_reduce clk req a s)"
proof -
  define o1 where "o1 = reduced (clk (clock_reads s)) req (arena s a)"
  define s1 where "s1 = s\<lparr> arena := (arena s)(a := o1), clock_reads := Suc (clock_reads s) \<rparr>"
  have s1: "book_inv s1"
    using assms by (rule book_inv_cong) (simp_all add: s1_def)
  show ?thesis
  proof (cases "map_find (price o1) (levels (own_side o1) s1)")
    case None
    then have "amend_reduce clk req a s = s1"
      by (simp add: amend_reduce_def Let_def o1_def s1_def)
    with s1 show ?thesis by simp
  next
    case (Some lv)
    then have "amend_reduce clk req a s =
        set_levels (own_side o1)
          (map_put (price o1) (reduce_quantity (leaves_qty (arena s a) - new_quantity req) lv)
             (levels (own_side o1) s1)) s1"
      by (simp add: amend_reduce_def Let_def o1_def s1_def)
    with book_inv_put [OF s1 Some, of "reduce_quantity (leaves_qty (arena s a) - new_quantity req) lv"]
    show ?thesis
      by (simp add: reduce_quantity_price)
  qed
qed

lemma amend_reprice_inv:
  assumes "book_inv s"
  shows "book_inv (amend_reprice clk req a s) \<and>
         order_type (arena (amend_reprice clk req a s) a) = order_type (arena s a)"
proof -
  from remove_from_book_inv [of s a] assms
  have "order_type (arena (remove_from_book a s) a) = order_type (arena s a)"
    by (simp add: book_inv_def same_terms_def)
  then have "order_type (arena (amend_reprice clk req a s) a) = order_type (arena s a)"
    by (simp add: amend_reprice_def repriced_def Let_def)
  moreover have "book_inv (amend_reprice clk req a s)"
    using remove_from_book_book_inv [OF assms, of a]
    by (rule book_inv_cong) (simp_all add: amend_reprice_def Let_def)
  ultimately show ?thesis by simp
qed

lemma notify_order_inv: "book_inv s \<Longrightarrow> book_inv (notify_order a s)"
  by (erule book_inv_cong) (simp_all add: notify_order_def)

lemma amend_order_inv:
  assumes "amend_order n clk req s = Returns (b, s')" "book_inv s"
  shows "book_inv s'"
proof (cases "order_index s (amend_order_id req)")
  case None
  with assms show ?thesis by (simp add: amend_order_def)
next
  case (Some a)
  show ?thesis
  proof (cases "is_active (arena s a)")
    case False
    with Some assms show ?thesis by (simp add: amend_order_def)
  next
    case True
    let ?reprice = "(new_price req \<noteq> 0 \<and> new_price req \<noteq> price (arena s a)) \<or>
        (new_quantity req \<noteq> 0 \<and> new_quantity req > leaves_qty (arena s a))"
    show ?thesis
    proof (cases ?reprice)
      case False
      with Some True assms(1) have "s' = notify_order a (amend_reduce clk req a s) \<or>
          s' = notify_order a s"
        by (auto simp: amend_order_def Let_def split: if_splits)
      with assms(2) show ?thesis
        by (auto intro: notify_order_inv amend_reduce_inv)
    next
      case rp: True
      let ?s1 = "amend_reprice clk req a s"
      from Some True rp assms(1) obtain s2 where m: "match n clk a ?s1 = Returns s2"
        by (cases "match n clk a ?s1") (auto simp: amend_order_def Let_def)
      from amend_reprice_inv [OF assms(2), of clk req a]
      have s1: "book_inv ?s1" and ty: "order_type (arena ?s1 a) = order_type (arena s a)"
        by simp_all
      note inv = match_book_inv [OF m s1]
      then have s2: "book_inv s2" and st: "same_terms (arena ?s1) (arena s2)" by simp_all
      from st have ty2: "order_type (arena s2 a) = order_type (arena ?s1 a)"
        by (simp add: same_terms_def)
      let ?s3 = "if leaves_qty (arena s2 a) > 0 \<and> order_type (arena s2 a) = Limit
                 then rest_order a s2 else s2"
      from Some True rp assms(1) m have "s' = notify_order a ?s3"
        by (auto simp: amend_order_def Let_def)
      moreover have "book_inv ?s3"
        using inv s2 ty2 by (auto simp: word_gt_0)
      ultimately show ?thesis
        by (simp add: notify_order_inv)
    qed
  qed
qed

lemma apply_request_inv:
  "apply_request n clk r s = Returns s' \<Longrightarrow> book_inv s \<Longrightarrow> book_inv s'"
  by (auto simp: apply_request_def split: Request.splits outcome.splits prod.splits
      intro: add_order_inv amend_order_inv cancel_order_inv [OF surjective_pairing])

lemma run_inv:
  "run n clk rs s = Returns s' \<Longrightarrow> book_inv s \<Longrightarrow> book_inv s'"
proof (induction rs arbitrary: s)
  case Nil
  then show ?case by simp
next
  case (Cons r rs)
  then show ?case
    by (auto split: outcome.splits dest: apply_request_inv)
qed

lemma book_inv_new: "book_inv (new_OrderBook nm)"
  by (simp add: book_inv_def ordered_book_def uncrossed_def sorted_keys_def keyed_def
      new_OrderBook_def)

lemma best_bid_greatest:
  "ordered_book s \<Longrightarrow> bids s \<noteq> [] \<Longrightarrow> fst (last (bids s)) = Max (fst ` set (bids s))"
  by (intro Max_eqI [symmetric]) (auto simp: ordered_book_def intro: sorted_keys_last)

lemma best_ask_least:
  "ordered_book s \<Longrightarrow> asks s \<noteq> [] \<Longrightarrow> fst (hd (asks s)) = Min (fst ` set (asks s))"
  by (intro Min_eqI [symmetric]) (auto simp: ordered_book_def intro: sorted_keys_hd)

lemma two_sided_evaluated:
  "returns_with (run 5 clk two_sided (new_OrderBook ''TEST''))
     (\<lambda>s. map fst (bids s) = [100] \<and> map fst (asks s) = [105])"
  by code_simp

text \<open>
  C5. No crossed book: in every book that a sequence of completed public operations
  (\<open>add_order\<close>, \<open>cancel_order\<close>, \<open>amend_order\<close>) has produced from a new book, if both
  the bid map and the ask map are non-empty then the greatest bid price is strictly
  less than the least ask price; \<open>check_no_crossed_book\<close>, the source's own check, holds.
\<close>

theorem no_crossed_book:
  assumes "run n clk rs (new_OrderBook nm) = Returns s"
  shows "check_no_crossed_book s \<and>
         (bids s \<noteq> [] \<and> asks s \<noteq> [] \<longrightarrow>
            Max (fst ` set (bids s)) < Min (fst ` set (asks s)))"
proof -
  from run_inv [OF assms book_inv_new] have ob: "ordered_book s" and uc: "uncrossed s"
    by (simp_all add: book_inv_def)
  have "fst (last (bids s)) < fst (hd (asks s))" if "bids s \<noteq> []" "asks s \<noteq> []"
    using uc that by (auto simp: uncrossed_def)
  then show ?thesis
    using best_bid_greatest [OF ob] best_ask_least [OF ob]
    by (auto simp: check_no_crossed_book_def best_bid_def best_ask_def)
qed

theorem no_crossed_book_witness:
  "returns_with (run 5 (\<lambda>n. n) two_sided (new_OrderBook ''TEST''))
     (\<lambda>s. bids s \<noteq> [] \<and> asks s \<noteq> [] \<and> check_no_crossed_book s \<and>
          Max (fst ` set (bids s)) < Min (fst ` set (asks s)))"
proof -
  note ev = two_sided_evaluated [of "\<lambda>n. n"]
  then obtain s where s: "run 5 (\<lambda>n. n) two_sided (new_OrderBook ''TEST'') = Returns s"
    by (cases "run 5 (\<lambda>n. n) two_sided (new_OrderBook ''TEST'')") (simp_all add: returns_with_def)
  with ev have "bids s \<noteq> []" "asks s \<noteq> []"
    by (auto simp: returns_with_def)
  with no_crossed_book [OF s] s show ?thesis
    by (simp add: returns_with_def)
qed

section \<open>Determinism\<close>

lemma untimed_order_fields [simp]:
  "oid (untimed_order ord) = oid ord" "sequence (untimed_order ord) = sequence ord"
  "side (untimed_order ord) = side ord" "order_type (untimed_order ord) = order_type ord"
  "tif (untimed_order ord) = tif ord" "price (untimed_order ord) = price ord"
  "quantity (untimed_order ord) = quantity ord" "filled_qty (untimed_order ord) = filled_qty ord"
  "leaves_qty (untimed_order ord) = leaves_qty ord" "status (untimed_order ord) = status ord"
  "prev_ptr (untimed_order ord) = prev_ptr ord" "next_ptr (untimed_order ord) = next_ptr ord"
  "symbol (untimed_order ord) = symbol ord"
  "is_buy (untimed_order ord) = is_buy ord" "is_filled (untimed_order ord) = is_filled ord"
  "is_active (untimed_order ord) = is_active ord" "own_side (untimed_order ord) = own_side ord"
  by (simp_all add: untimed_order_def is_buy_def is_filled_def is_active_def own_side_def)

lemma untimed_order_idem [simp]: "untimed_order (untimed_order ord) = untimed_order ord"
  by (simp add: untimed_order_def)

lemma untimed_fill [simp]: "untimed_order (fill t q ord) = fill 0 q (untimed_order ord)"
  by (simp add: untimed_order_def fill_def Let_def)

lemma untimed_cancel [simp]: "untimed_order (cancel t ord) = cancel 0 (untimed_order ord)"
  by (simp add: untimed_order_def cancel_def)

lemma untimed_fields [simp]:
  "book_symbol (untimed s) = book_symbol s" "bids (untimed s) = bids s" "asks (untimed s) = asks s"
  "order_index (untimed s) = order_index s" "allocated (untimed s) = allocated s"
  "next_sequence (untimed s) = next_sequence s" "trade_count (untimed s) = trade_count s"
  "total_volume (untimed s) = total_volume s" "clock_reads (untimed s) = clock_reads s"
  "invalid_iterators (untimed s) = invalid_iterators s"
  "arena (untimed s) = untimed_order \<circ> arena s"
  "trades (untimed s) = map untimed_trade (trades s)"
  "order_updates (untimed s) = map untimed_order (order_updates s)"
  "levels sd (untimed s) = levels sd s"
  by (simp_all add: untimed_def levels_def split: Side.splits)

lemma untimed_push_back:
  "push_back a (untimed_order \<circ> h) lv =
     (case push_back a h lv of (h', lv') \<Rightarrow> (untimed_order \<circ> h', lv'))"
  by (auto simp: push_back_def Let_def untimed_order_def fun_eq_iff split: option.splits)

lemma untimed_remove:
  "remove a (untimed_order \<circ> h) lv =
     (case remove a h lv of (h', lv') \<Rightarrow> (untimed_order \<circ> h', lv'))"
  by (auto simp: remove_def Let_def untimed_order_def fun_eq_iff split: option.splits)

lemma untimed_pop_front:
  "pop_front (untimed_order \<circ> h) lv =
     (case pop_front h lv of (h', lv') \<Rightarrow> (untimed_order \<circ> h', lv'))"
  by (auto simp: pop_front_def Let_def untimed_order_def fun_eq_iff split: option.splits)


lemma untimed_arena: "arena (untimed s) = untimed_order \<circ> arena s"
  by (simp add: untimed_def)

lemma untimed_updates:
  "untimed (s\<lparr> arena := h \<rparr>) = (untimed s)\<lparr> arena := untimed_order \<circ> h \<rparr>"
  "untimed (s\<lparr> trades := ts \<rparr>) = (untimed s)\<lparr> trades := map untimed_trade ts \<rparr>"
  "untimed (s\<lparr> order_updates := us \<rparr>) = (untimed s)\<lparr> order_updates := map untimed_order us \<rparr>"
  "untimed (s\<lparr> bids := m \<rparr>) = (untimed s)\<lparr> bids := m \<rparr>"
  "untimed (s\<lparr> asks := m \<rparr>) = (untimed s)\<lparr> asks := m \<rparr>"
  "untimed (s\<lparr> order_index := ix \<rparr>) = (untimed s)\<lparr> order_index := ix \<rparr>"
  "untimed (s\<lparr> allocated := k \<rparr>) = (untimed s)\<lparr> allocated := k \<rparr>"
  "untimed (s\<lparr> next_sequence := w \<rparr>) = (untimed s)\<lparr> next_sequence := w \<rparr>"
  "untimed (s\<lparr> trade_count := w \<rparr>) = (untimed s)\<lparr> trade_count := w \<rparr>"
  "untimed (s\<lparr> total_volume := w \<rparr>) = (untimed s)\<lparr> total_volume := w \<rparr>"
  "untimed (s\<lparr> clock_reads := k \<rparr>) = (untimed s)\<lparr> clock_reads := k \<rparr>"
  "untimed (s\<lparr> invalid_iterators := k \<rparr>) = (untimed s)\<lparr> invalid_iterators := k \<rparr>"
  by (simp_all add: untimed_def)

lemma untimed_set_levels: "untimed (set_levels sd m s) = set_levels sd m (untimed s)"
  by (simp add: untimed_def set_levels_def split: Side.splits)


lemma untimed_fill_both:
  "fill_both 0 0 q inc r (untimed_order \<circ> h) = untimed_order \<circ> fill_both t1 t2 q inc r h"
  by (auto simp: fill_both_def Let_def fun_eq_iff)

lemma untimed_execute_fill:
  "execute_fill still inc r lv (untimed s) =
     (case execute_fill clk inc r lv s of (lv', s') \<Rightarrow> (lv', untimed s'))"
proof -
  let ?q = "min (leaves_qty (arena s inc)) (leaves_qty (arena s r))"
  let ?h2 = "fill_both (clk (Suc (clock_reads s))) (clk (Suc (Suc (clock_reads s)))) ?q inc r (arena s)"
  note fb = untimed_fill_both [of ?q inc r "arena s" "clk (Suc (clock_reads s))"
      "clk (Suc (Suc (clock_reads s)))"]
  obtain h3 lv2 where pf: "pop_front ?h2 (reduce_quantity ?q lv) = (h3, lv2)"
    by (cases "pop_front ?h2 (reduce_quantity ?q lv)")
  show ?thesis
  proof (cases "is_filled (?h2 r)")
    case True
    then have "execute_fill still inc r lv (untimed s) =
        (lv2, untimed (snd (execute_fill clk inc r lv s)))"
      unfolding execute_fill_def Let_def still_def
      by (simp add: fb untimed_pop_front pf) (simp add: untimed_def untimed_trade_def)
    moreover from True have "fst (execute_fill clk inc r lv s) = lv2"
      unfolding execute_fill_def Let_def by (simp add: pf)
    ultimately show ?thesis
      by (simp add: case_prod_unfold)
  next
    case False
    then have "execute_fill still inc r lv (untimed s) =
        (reduce_quantity ?q lv, untimed (snd (execute_fill clk inc r lv s)))"
      unfolding execute_fill_def Let_def still_def
      by (simp add: fb) (simp add: untimed_def untimed_trade_def)
    moreover from False have "fst (execute_fill clk inc r lv s) = reduce_quantity ?q lv"
      unfolding execute_fill_def Let_def by simp
    ultimately show ?thesis
      by (simp add: case_prod_unfold)
  qed
qed


lemma untimed_match_level:
  "match_level n still inc lv (untimed s) =
     map_outcome (\<lambda>(lv', s'). (lv', untimed s')) (match_level n clk inc lv s)"
proof (induction n arbitrary: lv s)
  case 0
  then show ?case by simp
next
  case (Suc n)
  show ?case
  proof (cases "leaves_qty (arena s inc) > 0 \<and> \<not> empty_level lv")
    case False
    then show ?thesis by auto
  next
    case True
    show ?thesis
    proof (cases "head lv")
      case None
      with True show ?thesis by simp
    next
      case (Some r)
      obtain lv1 s1 where ef: "execute_fill clk inc r lv s = (lv1, s1)"
        by (cases "execute_fill clk inc r lv s")
      with untimed_execute_fill [of inc r lv s clk]
      have "execute_fill still inc r lv (untimed s) = (lv1, untimed s1)"
        by simp
      with True Some ef Suc.IH [of lv1 s1] show ?thesis
        by simp
    qed
  qed
qed

lemma untimed_match_levels:
  "match_levels n still inc cs ok (untimed s) =
     map_outcome untimed (match_levels n clk inc cs ok s)"
proof (induction n arbitrary: s)
  case 0
  then show ?case by simp
next
  case (Suc n)
  let ?m = "levels cs s"
  show ?case
  proof (cases "leaves_qty (arena s inc) > 0 \<and> ?m \<noteq> []")
    case False
    then show ?thesis by auto
  next
    case True
    obtain k lv where best: "(if is_buy (arena s inc) then hd ?m else last ?m) = (k, lv)"
      by (cases "if is_buy (arena s inc) then hd ?m else last ?m")
    show ?thesis
    proof (cases "ok (price (arena s inc)) (level_price lv)")
      case False
      with True best show ?thesis by (auto split: if_splits)
    next
      case ok: True
      show ?thesis
      proof (cases "match_level n clk inc lv s")
        case (Returns x)
        obtain lv1 s1 where x: "x = (lv1, s1)" by (cases x)
        with Returns untimed_match_level [of n inc lv s clk]
        have "match_level n still inc lv (untimed s) = Returns (lv1, untimed s1)"
          by simp
        with True best ok Returns x Suc.IH show ?thesis
          by (auto simp: untimed_set_levels [symmetric] split: if_splits)
      next
        case (Faults f)
        with untimed_match_level [of n inc lv s clk]
        have "match_level n still inc lv (untimed s) = Faults f"
          by simp
        with True best ok Faults show ?thesis by (auto split: if_splits)
      next
        case OutOfFuel
        with untimed_match_level [of n inc lv s clk]
        have "match_level n still inc lv (untimed s) = OutOfFuel"
          by simp
        with True best ok OutOfFuel show ?thesis by (auto split: if_splits)
      qed
    qed
  qed
qed

lemma untimed_match_against:
  "match_against n still inc cs ok (untimed s) =
     map_outcome untimed (match_against n clk inc cs ok s)"
  unfolding match_against_def Let_def
  by (simp add: untimed_match_levels [of n inc cs ok _ clk] untimed_updates(12) [symmetric])

lemma untimed_can_fill [simp]:
  "can_fill_completely (untimed_order ord) (untimed s) = can_fill_completely ord s"
proof -
  have "can_fill_walk (untimed_order ord) q m = can_fill_walk ord q m" for q m
    by (induction ord q m rule: can_fill_walk.induct) simp_all
  then show ?thesis
    by (simp add: can_fill_completely_def)
qed

lemma untimed_match:
  "match n still inc (untimed s) = map_outcome untimed (match n clk inc s)"
  unfolding match_def
  by (simp add: untimed_match_against [of n inc _ _ s clk])


lemma untimed_new_Order [simp]:
  "untimed_order (new_Order t sq req) = new_Order 0 sq req"
  by (simp add: new_Order_def untimed_order_def default_Order_def)

lemma untimed_repriced [simp]:
  "untimed_order (repriced t sq req ord) = repriced 0 sq req (untimed_order ord)"
  by (cases ord) (simp add: repriced_def untimed_order_def Let_def)

lemma untimed_reduced [simp]:
  "untimed_order (reduced t req ord) = reduced 0 req (untimed_order ord)"
  by (cases ord) (simp add: reduced_def untimed_order_def Let_def)

lemma cancel_oid [simp]: "oid (cancel t ord) = oid ord"
  by (simp add: cancel_def)

lemma untimed_rest_order: "rest_order a (untimed s) = untimed (rest_order a s)"
proof -
  let ?sd = "own_side (arena s a)"
  let ?k = "price (arena s a)"
  define lv where "lv = (case map_find ?k (levels ?sd s) of Some l \<Rightarrow> l | None \<Rightarrow> new_PriceLevel ?k)"
  obtain h' lv' where pb: "push_back a (arena s) lv = (h', lv')"
    by (cases "push_back a (arena s) lv")
  have l: "rest_order a (untimed s) =
      (case push_back a (untimed_order \<circ> arena s) lv of
         (h', lv') \<Rightarrow> set_levels ?sd (map_put ?k lv' (levels ?sd s)) ((untimed s)\<lparr> arena := h' \<rparr>))"
    unfolding rest_order_def Let_def lv_def by (simp cong: option.case_cong)
  have r: "rest_order a s = set_levels ?sd (map_put ?k lv' (levels ?sd s)) (s\<lparr> arena := h' \<rparr>)"
    unfolding rest_order_def Let_def using pb by (simp add: lv_def)
  show ?thesis
    unfolding l r by (simp add: untimed_push_back pb untimed_set_levels untimed_updates)
qed

lemma untimed_remove_from_book:
  "remove_from_book a (untimed s) = untimed (remove_from_book a s)"
proof (cases "map_find (price (arena s a)) (levels (own_side (arena s a)) s)")
  case None
  then show ?thesis
    by (simp add: remove_from_book_def Let_def)
next
  case (Some lv)
  obtain h' lv' where rm: "remove a (arena s) lv = (h', lv')"
    by (cases "remove a (arena s) lv")
  with Some show ?thesis
    unfolding remove_from_book_def Let_def
    by (simp add: untimed_remove untimed_set_levels untimed_updates)
qed

lemma untimed_admit_order:
  "admit_order still req (untimed s) = untimed (admit_order clk req s)"
  by (simp add: admit_order_def Let_def still_def untimed_updates fun_upd_comp)

lemma untimed_cancel_remainder:
  "cancel_remainder still a (untimed s) = untimed (cancel_remainder clk a s)"
  by (simp add: cancel_remainder_def Let_def still_def untimed_updates fun_upd_comp)

lemma untimed_add_order:
  "add_order n still req (untimed s) =
     map_outcome (\<lambda>(a, s'). (a, untimed s')) (add_order n clk req s)"
proof -
  let ?a = "allocated s"
  let ?s0 = "admit_order clk req s"
  have m: "match n still ?a (admit_order still req (untimed s)) =
      map_outcome untimed (match n clk ?a ?s0)"
    by (simp add: untimed_admit_order [of req s clk] untimed_match [of n ?a ?s0 clk])
  show ?thesis
  proof (cases "match n clk ?a ?s0")
    case (Returns s1)
    with m show ?thesis
      unfolding add_order_def Let_def
      by (simp add: untimed_rest_order untimed_cancel_remainder [of a s1 clk for a]
          split: OrderType.splits)
  next
    case (Faults f)
    with m show ?thesis
      unfolding add_order_def Let_def by simp
  next
    case OutOfFuel
    with m show ?thesis
      unfolding add_order_def Let_def by simp
  qed
qed

lemma untimed_cancel_order:
  "cancel_order still i (untimed s) =
     (case cancel_order clk i s of (b, s') \<Rightarrow> (b, untimed s'))"
proof (cases "order_index s i")
  case None
  then show ?thesis by (simp add: cancel_order_def)
next
  case (Some a)
  show ?thesis
  proof (cases "is_active (arena s a)")
    case False
    with Some show ?thesis by (simp add: cancel_order_def)
  next
    case True
    with Some show ?thesis
      unfolding cancel_order_def Let_def still_def
      by (simp add: untimed_remove_from_book untimed_updates fun_upd_comp)
  qed
qed

lemma untimed_notify_order: "notify_order a (untimed s) = untimed (notify_order a s)"
  by (simp add: notify_order_def untimed_updates)

lemma untimed_amend_reprice:
  "amend_reprice still req a (untimed s) = untimed (amend_reprice clk req a s)"
  unfolding amend_reprice_def Let_def still_def
  by (simp add: untimed_remove_from_book untimed_updates fun_upd_comp)

lemma reduced_terms [simp]:
  "price (reduced t req ord) = price ord" "own_side (reduced t req ord) = own_side ord"
  by (simp_all add: reduced_def Let_def own_side_def is_buy_def)

lemma untimed_amend_reduce:
  "amend_reduce still req a (untimed s) = untimed (amend_reduce clk req a s)"
  unfolding amend_reduce_def Let_def still_def
  by (simp add: untimed_updates untimed_set_levels fun_upd_comp levels_def
      split: option.splits Side.splits)

lemma untimed_amend_order:
  "amend_order n still req (untimed s) =
     map_outcome (\<lambda>(b, s'). (b, untimed s')) (amend_order n clk req s)"
proof (cases "order_index s (amend_order_id req)")
  case None
  then show ?thesis by (simp add: amend_order_def)
next
  case (Some a)
  let ?s1 = "amend_reprice clk req a s"
  have m: "match n still a (amend_reprice still req a (untimed s)) =
      map_outcome untimed (match n clk a ?s1)"
    by (simp add: untimed_amend_reprice [of req a s clk] untimed_match [of n a ?s1 clk])
  show ?thesis
  proof (cases "match n clk a ?s1")
    case (Returns s2)
    with m Some show ?thesis
      unfolding amend_order_def Let_def
      by (auto simp: untimed_rest_order untimed_notify_order
          untimed_amend_reduce [of req a s clk])
  next
    case (Faults f)
    with m Some show ?thesis
      unfolding amend_order_def Let_def
      by (auto simp: untimed_notify_order untimed_amend_reduce [of req a s clk])
  next
    case OutOfFuel
    with m Some show ?thesis
      unfolding amend_order_def Let_def
      by (auto simp: untimed_notify_order untimed_amend_reduce [of req a s clk])
  qed
qed

lemma untimed_apply_request:
  "apply_request n still r (untimed s) = map_outcome untimed (apply_request n clk r s)"
proof (cases r)
  case (NewOrder req)
  then show ?thesis
    unfolding apply_request_def
    by (cases "add_order n clk req s") (auto simp: untimed_add_order [of n req s clk])
next
  case (CancelOrder i)
  then show ?thesis
    unfolding apply_request_def
    by (simp add: untimed_cancel_order [of i s clk] case_prod_unfold)
next
  case (AmendOrder req)
  then show ?thesis
    unfolding apply_request_def
    by (cases "amend_order n clk req s") (auto simp: untimed_amend_order [of n req s clk])
qed

lemma untimed_run:
  "run n still rs (untimed s) = map_outcome untimed (run n clk rs s)"
proof (induction rs arbitrary: s)
  case Nil
  then show ?case by simp
next
  case (Cons r rs)
  show ?case
    by (cases "apply_request n clk r s")
       (simp_all add: untimed_apply_request [of n r s clk] Cons.IH)
qed

lemma untimed_trade_terms: "trade_terms (untimed_trade t) = trade_terms t"
  by (simp add: trade_terms_def untimed_trade_def)

lemma untimed_eq_trade_terms:
  assumes "untimed s1 = untimed s2"
  shows "map trade_terms (trades s1) = map trade_terms (trades s2)"
proof -
  from assms have "trades (untimed s1) = trades (untimed s2)"
    by simp
  then have "map trade_terms (map untimed_trade (trades s1)) =
      map trade_terms (map untimed_trade (trades s2))"
    by simp
  then show ?thesis
    by (simp add: untimed_trade_terms comp_def)
qed

text \<open>
  C9, as amended. Determinism up to clock readings: two runs of the same book, from the
  same initial state, fed the same sequence of requests, under any two clocks, agree:
  both return, with trade sequences that agree at every position on price, quantity,
  \<open>buy_order_id\<close>, \<open>sell_order_id\<close> and sequence, and with final books that are
  identical except for the values read from the clock (\<open>entry_time\<close> and
  \<open>last_update\<close> of orders, \<open>exec_time\<close> of trades); or neither returns.
\<close>

theorem determinism_up_to_clock:
  "agree (run n clk rs s) (run n clk' rs s)"
proof -
  have eq: "map_outcome untimed (run n clk rs s) = map_outcome untimed (run n clk' rs s)"
    by (simp add: untimed_run [symmetric])
  show ?thesis
  proof (cases "run n clk rs s")
    case (Returns s1)
    with eq obtain s2 where s2: "run n clk' rs s = Returns s2" "untimed s1 = untimed s2"
      by (cases "run n clk' rs s") auto
    with Returns untimed_eq_trade_terms [OF s2(2)] show ?thesis
      by (simp add: agree_def)
  next
    case (Faults f)
    with eq show ?thesis
      by (cases "run n clk' rs s") (auto simp: agree_def)
  next
    case OutOfFuel
    with eq show ?thesis
      by (cases "run n clk' rs s") (auto simp: agree_def)
  qed
qed

theorem determinism_up_to_clock_witness:
  "agree (run 5 (\<lambda>n. n) (fifo_buys @ [NewOrder fifo_sell]) (new_OrderBook ''TEST''))
         (run 5 (\<lambda>n. 2 * n + 7) (fifo_buys @ [NewOrder fifo_sell]) (new_OrderBook ''TEST''))"
  using determinism_up_to_clock [of 5 "\<lambda>n. n" "fifo_buys @ [NewOrder fifo_sell]"
      "new_OrderBook ''TEST''" "\<lambda>n. 2 * n + 7"]
  by simp

lemma first_order_entry_time:
  "returns_with (run 5 clk [NewOrder (test_order 1 Buy Limit GTC 100 10)] (new_OrderBook ''TEST''))
     (\<lambda>s. entry_time (arena s 0) = clk 0)"
  by code_simp

text \<open>
  The claim as stated fails: the final book holds what \<open>now()\<close> returned, so two runs of
  the same single request under two clocks end in different books.
\<close>

theorem identical_final_book_counterexample:
  "run 5 (\<lambda>n. 0) [NewOrder (test_order 1 Buy Limit GTC 100 10)] (new_OrderBook ''TEST'') \<noteq>
   run 5 (\<lambda>n. 1) [NewOrder (test_order 1 Buy Limit GTC 100 10)] (new_OrderBook ''TEST'')"
proof
  assume eq: "run 5 (\<lambda>n. 0) [NewOrder (test_order 1 Buy Limit GTC 100 10)] (new_OrderBook ''TEST'') =
    run 5 (\<lambda>n. 1) [NewOrder (test_order 1 Buy Limit GTC 100 10)] (new_OrderBook ''TEST'')"
  from first_order_entry_time [of "\<lambda>n. 0"] first_order_entry_time [of "\<lambda>n. 1"] eq
  show False
    by (auto simp: returns_with_def split: outcome.splits)
qed

section \<open>Cancelling an order that was amended\<close>

lemma cancel_order_inactive:
  "order_index s i = Some a \<Longrightarrow> \<not> is_active (arena s a) \<Longrightarrow> cancel_order clk i s = (False, s)"
  by (simp add: cancel_order_def)

lemma amended_resting_evaluated:
  "returns_with (run 5 clk amended_resting (new_OrderBook ''TEST''))
     (\<lambda>s. order_index s 1 = Some 0 \<and> status (arena s 0) = Amended \<and>
          leaves_qty (arena s 0) = 200 \<and> resting_orders s (bids s) = [(10000, [0])])"
  by code_simp

text \<open>
  C1 fails on the source. A buy limit order with id 1 for 500 at 10000 is amended down to
  200. It is then in the id index, linked into the level at 10000 with 200 to fill, and
  its status is \<open>Amended\<close>, which \<open>is_active\<close> does not accept:
  \<open>cancel_order(1)\<close> returns false and changes nothing, so the order stays on the book.
\<close>

theorem cancel_refuses_amended_order:
  "returns_with (run 5 clk amended_resting (new_OrderBook ''TEST''))
     (\<lambda>s. order_index s 1 = Some 0 \<and> status (arena s 0) = Amended \<and>
          leaves_qty (arena s 0) = 200 \<and> resting_orders s (bids s) = [(10000, [0])] \<and>
          cancel_order clk 1 s = (False, s))"
proof -
  note ev = amended_resting_evaluated [of clk]
  then obtain s where s: "run 5 clk amended_resting (new_OrderBook ''TEST'') = Returns s"
    by (cases "run 5 clk amended_resting (new_OrderBook ''TEST'')") (simp_all add: returns_with_def)
  with ev have f: "order_index s 1 = Some 0" "status (arena s 0) = Amended"
      "leaves_qty (arena s 0) = 200" "resting_orders s (bids s) = [(10000, [0])]"
    by (simp_all add: returns_with_def)
  from f(2) have "\<not> is_active (arena s 0)"
    by (simp add: is_active_def)
  with f(1) have "cancel_order clk 1 s = (False, s)"
    by (rule cancel_order_inactive)
  with s f show ?thesis
    by (simp add: returns_with_def)
qed

section \<open>Amending below the filled quantity\<close>

lemma underflow_amend_evaluated:
  "returns_with (run 5 clk underflow_amend (new_OrderBook ''TEST''))
     (\<lambda>s. resting_orders s (bids s) = [(10000, [0])] \<and>
          quantity (arena s 0) = 200 \<and> filled_qty (arena s 0) = 900 \<and>
          leaves_qty (arena s 0) = 18446744073709550916)"
  by code_simp

text \<open>
  C2 fails on the source. Order 1 (1000 at 10000) has 900 filled and 100 left when it is
  amended to quantity 200. Since 200 exceeds the 100 left, the amend takes the
  priority-losing branch and recomputes \<open>leaves_qty = 200 - 900\<close> in unsigned 64-bit
  arithmetic: the order rests again with quantity 200, 900 filled and
  18446744073709550916 (that is \<open>2^64 - 700\<close>) left, so that
  \<open>filled_qty + leaves_qty\<close> exceeds \<open>quantity\<close>.
\<close>

theorem amend_breaks_quantity_invariant:
  "returns_with (run 5 clk underflow_amend (new_OrderBook ''TEST''))
     (\<lambda>s. resting_orders s (bids s) = [(10000, [0])] \<and>
          quantity (arena s 0) = 200 \<and> filled_qty (arena s 0) = 900 \<and>
          leaves_qty (arena s 0) = 18446744073709550916 \<and>
          unat (quantity (arena s 0)) < unat (filled_qty (arena s 0)) + unat (leaves_qty (arena s 0)))"
proof -
  note ev = underflow_amend_evaluated [of clk]
  then obtain s where s: "run 5 clk underflow_amend (new_OrderBook ''TEST'') = Returns s"
    by (cases "run 5 clk underflow_amend (new_OrderBook ''TEST'')") (simp_all add: returns_with_def)
  with ev show ?thesis
    by (simp add: returns_with_def)
qed

section \<open>The aggregate of a level\<close>

text \<open>
  C8 fails on the source. After the amend of C2 and a second buy order for 1000 at the
  same price, the level at 10000 links two orders with \<open>2^64 - 700\<close> and 1000 left, and
  its \<open>total_quantity\<close> has wrapped around to 300. A sell market order for 500 then fills
  500 against the first of them: 500 exceeds 300, \<open>reduce_quantity\<close> takes its saturation
  branch, and the level is left with \<open>total_quantity = 0\<close> while the two orders linked
  into it have \<open>2^64 - 1200\<close> and 1000 left.
\<close>

theorem fill_saturates_level_aggregate:
  "returns_with (run 5 clk crowded_level (new_OrderBook ''TEST''))
     (\<lambda>s. level_view s (bids s) = [(10000, 300, 2, [18446744073709550916, 1000])] \<and>
          returns_with (add_order 5 clk sell_500 s)
            (\<lambda>(a, s'). map trade_report (drop (length (trades s)) (trades s')) = [(1, 500, 10000)] \<and>
                 level_view s' (bids s') = [(10000, 0, 2, [18446744073709550416, 1000])]))"
  by code_simp

text \<open>
  A second way to the same end, without any amend: an order of quantity 0 is admitted with
  status \<open>New\<close>, stays in the id index and is never linked. Cancelling it runs
  \<open>PriceLevel::remove\<close> on an order that is not in the queue: the level at its price
  loses \<open>head_\<close> and \<open>tail_\<close> and one count, keeping \<open>total_quantity = 20\<close> and
  \<open>order_count = 1\<close> with no order linked. The next order that matches at the level
  dereferences the null \<open>front()\<close>.
\<close>

lemma zero_quantity_cancel_corrupts_level:
  "returns_with (run 5 clk (butlast zero_quantity_cancel) (new_OrderBook ''TEST''))
     (\<lambda>s. level_view s (bids s) = [(100, 20, 2, [10, 10])] \<and>
          order_index s 2 = Some 2 \<and> is_active (arena s 2) \<and> leaves_qty (arena s 2) = 0) \<and>
   returns_with (run 5 clk zero_quantity_cancel (new_OrderBook ''TEST''))
     (\<lambda>s. level_view s (bids s) = [(100, 20, 1, [])] \<and>
          fault_of (add_order 5 clk sell_10 s) = Some NullDeref)"
  by code_simp

section \<open>Fill or kill\<close>

text \<open>
  C4 fails on the source, in its second half. With bids of 50 at 90 and 100 at 110, a
  sell FOK order for 100 with limit 100 can be covered: the best bid, 110, crosses and
  holds 100. \<open>can_fill_completely\<close> walks the bids from the lowest price, stops at 90,
  which does not cross, and answers no; the order is cancelled without a trade and the
  bids are left as they were. The same order as IOC fills completely at 110.
\<close>

theorem coverable_fok_sell_is_killed:
  "returns_with (run 5 clk two_bids (new_OrderBook ''TEST''))
     (\<lambda>s. level_view s (bids s) = [(90, 50, 1, [50]), (110, 100, 1, [100])] \<and>
          spec_can_be_covered (new_Order t sq fok_sell) s \<and>
          \<not> can_fill_completely (new_Order t sq fok_sell) s \<and>
          returns_with (add_order 5 clk fok_sell s)
            (\<lambda>(a, s'). trades s' = trades s \<and> status (arena s' a) = Cancelled \<and>
                 filled_qty (arena s' a) = 0 \<and> level_view s' (bids s') = level_view s (bids s)) \<and>
          returns_with (add_order 5 clk ioc_sell s)
            (\<lambda>(a, s'). map trade_report (drop (length (trades s)) (trades s')) = [(2, 100, 110)] \<and>
                 status (arena s' a) = Filled))"
  by code_simp

section \<open>Orders outside the id index\<close>

text \<open>
  C6 fails on the source. A buy limit order with id 1 rests at 100. A sell IOC order that
  reuses id 1 overwrites the index entry, matches nothing at its limit of 200, is
  cancelled and takes the entry for id 1 out of the index. The first order is still linked
  into the level at 100: \<open>cancel_order(1)\<close> returns false, and the next sell market
  order trades with it, the trade naming buy order 1.
\<close>

theorem reused_id_leaves_phantom_order:
  "returns_with (run 5 clk reused_id (new_OrderBook ''TEST''))
     (\<lambda>s. resting_orders s (bids s) = [(100, [0])] \<and> oid (arena s 0) = 1 \<and>
          order_index s 1 = None \<and> fst (cancel_order clk 1 s) = False \<and>
          returns_with (add_order 5 clk sell_10 s)
            (\<lambda>(a, s'). map trade_report (drop (length (trades s)) (trades s')) = [(1, 10, 100)]))"
  by code_simp

text \<open>
  The same happens without any reuse of an id, through orders of quantity 0: after
  \<open>zero_quantity_phantom\<close> the level at 100 links order 12, which was filled at 101 and
  has left the id index, and the next market order trades with it (for quantity 0, at
  price 101).
\<close>

lemma zero_quantity_leaves_phantom_order:
  "returns_with (run 5 clk zero_quantity_phantom (new_OrderBook ''TEST''))
     (\<lambda>s. resting_orders s (bids s) = [(100, [1, 2])] \<and> oid (arena s 2) = 12 \<and>
          order_index s 12 = None \<and>
          returns_with (add_order 5 clk sell_25 s)
            (\<lambda>(a, s'). map trade_report (drop (length (trades s)) (trades s')) =
                 [(11, 10, 100), (12, 0, 101)]))"
  by code_simp

section \<open>The iterator that \<open>match_against\<close> starts from\<close>

text \<open>
  C10 fails on the source. The first order of a session is a sell limit order: the bid
  map is empty when \<open>match_against\<close> initialises its iterator with
  \<open>std::prev(contra_side.end())\<close>, before the loop tests \<open>!contra_side.empty()\<close>. The
  iterator is overwritten before it is read, and the order rests.
\<close>

theorem sell_into_empty_bids_decrements_end:
  "bids (new_OrderBook ''TEST'') = [] \<and>
   std_prev_end (bids (admit_order clk first_sell (new_OrderBook ''TEST''))) = Invalid \<and>
   returns_with (add_order 5 clk first_sell (new_OrderBook ''TEST''))
     (\<lambda>(a, s). invalid_iterators s = 1 \<and> resting_orders s (asks s) = [(100, [0])])"
  by code_simp

section \<open>Unknown symbols at the facade\<close>

text \<open>
  C7 fails on the source for two of the three calls. With no book registered for the
  symbol, \<open>cancel_order\<close> and \<open>amend_order\<close> of the engine return false and leave the
  engine as it was, \<open>total_rejects\<close> included; only \<open>submit_order\<close> counts the reject.
\<close>

theorem unknown_symbol_cancel_and_amend_not_counted:
  "books new_MatchingEngine (c_string ''NONE'') = None \<and>
   engine_cancel_order clk unknown_cancel new_MatchingEngine = (False, new_MatchingEngine) \<and>
   engine_amend_order 5 clk unknown_amend new_MatchingEngine = Returns (False, new_MatchingEngine) \<and>
   total_rejects (stats new_MatchingEngine) = 0 \<and>
   returns_with (submit_order 5 clk unknown_order new_MatchingEngine)
     (\<lambda>(r, e). r = None \<and> total_rejects (stats e) = 1)"
  by (simp add: engine_cancel_order_def engine_amend_order_def submit_order_def
      new_MatchingEngine_def unknown_cancel_def unknown_amend_def unknown_order_def
      c_string_def returns_with_def)

section \<open>What does hold of cancel, of FOK and of the facade\<close>

lemma remove_from_book_index: "order_index (remove_from_book a s) = order_index s"
  by (simp add: remove_from_book_def Let_def set_levels_def
      split: option.splits prod.splits Side.splits)

text \<open>
  \<open>cancel_order\<close> of an id whose order is in the index with status \<open>New\<close> or
  \<open>PartiallyFilled\<close> returns true, sets the status to \<open>Cancelled\<close> and \<open>leaves_qty\<close>
  to 0, and removes the id from the index.
\<close>

theorem cancel_active_order:
  assumes "order_index s i = Some a" "is_active (arena s a)"
  shows "(case cancel_order clk i s of
            (ok, s') \<Rightarrow> ok \<and> status (arena s' a) = Cancelled \<and> leaves_qty (arena s' a) = 0 \<and>
                        order_index s' = (order_index s)(i := None))"
  using assms
  by (simp add: cancel_order_def Let_def cancel_def remove_from_book_index)

lemma two_sided_index:
  "returns_with (run 5 clk two_sided (new_OrderBook ''TEST''))
     (\<lambda>s. order_index s 1 = Some 0 \<and> is_active (arena s 0))"
  by code_simp

theorem cancel_active_order_witness:
  "returns_with (run 5 (\<lambda>n. n) two_sided (new_OrderBook ''TEST''))
     (\<lambda>s. order_index s 1 = Some 0 \<and> is_active (arena s 0) \<and>
          (case cancel_order (\<lambda>n. n) 1 s of
             (ok, s') \<Rightarrow> ok \<and> status (arena s' 0) = Cancelled \<and> leaves_qty (arena s' 0) = 0 \<and>
                         order_index s' = (order_index s)(1 := None)))"
proof -
  note ev = two_sided_index [of "\<lambda>n. n"]
  then obtain s where s: "run 5 (\<lambda>n. n) two_sided (new_OrderBook ''TEST'') = Returns s"
    by (cases "run 5 (\<lambda>n. n) two_sided (new_OrderBook ''TEST'')") (simp_all add: returns_with_def)
  with ev have f: "order_index s 1 = Some 0" "is_active (arena s 0)"
    by (simp_all add: returns_with_def)
  with s cancel_active_order [OF f, of "\<lambda>n. n"] show ?thesis
    by (simp add: returns_with_def)
qed

lemma can_fill_walk_zero: "can_fill_walk ord 0 m"
  by (cases m) (auto simp: Let_def)

text \<open>
  A FOK order that \<open>can_fill_completely\<close> refuses is admitted and cancelled and nothing
  else happens: \<open>add_order\<close> returns, no trade is emitted, both maps and every other
  order are as before, the order has status \<open>Cancelled\<close> with nothing filled and nothing
  left, and its id is not in the index.
\<close>

theorem fok_killed_atomically:
  assumes "req_type req = FOK"
    and "\<not> can_fill_completely (new_Order (clk (clock_reads s)) (next_sequence s) req) s"
    and "add_order n clk req s = out"
  shows "returns_with out (\<lambda>(a, s'). a = allocated s \<and>
           trades s' = trades s \<and> bids s' = bids s \<and> asks s' = asks s \<and>
           (\<forall>b. b \<noteq> a \<longrightarrow> arena s' b = arena s b) \<and>
           status (arena s' a) = Cancelled \<and> leaves_qty (arena s' a) = 0 \<and>
           filled_qty (arena s' a) = 0 \<and>
           order_index s' = (order_index s)(req_id req := None))"
proof -
  let ?ord = "new_Order (clk (clock_reads s)) (next_sequence s) req"
  let ?s0 = "admit_order clk req s"
  have a0: "arena ?s0 (allocated s) = ?ord"
    by (simp add: admit_order_def Let_def)
  have "can_fill_completely ?ord ?s0 = can_fill_completely ?ord s"
    by (simp add: can_fill_completely_def admit_order_def Let_def)
  with assms(1,2) a0 have m: "match n clk (allocated s) ?s0 = Returns ?s0"
    by (simp add: match_def new_Order_def)
  from assms(2) have "leaves_qty ?ord \<noteq> 0"
    using can_fill_walk_zero by (auto simp: can_fill_completely_def)
  then have nz: "leaves_qty (arena ?s0 (allocated s)) > 0"
    by (simp add: a0 word_gt_0)
  have ty: "order_type (arena ?s0 (allocated s)) = FOK"
    using assms(1) by (simp add: a0 new_Order_def)
  from m nz ty assms(3) have "out = Returns (allocated s, cancel_remainder clk (allocated s) ?s0)"
    by (simp add: add_order_def Let_def)
  then show ?thesis
    by (auto simp: returns_with_def cancel_remainder_def Let_def admit_order_def cancel_def
        new_Order_def fun_eq_iff)
qed

lemma two_asks_evaluated:
  "returns_with (run 5 clk two_asks (new_OrderBook ''TEST''))
     (\<lambda>s. level_view s (asks s) = [(10001, 50, 1, [50]), (10002, 30, 1, [30])] \<and>
          \<not> can_fill_completely (new_Order (clk (clock_reads s)) (next_sequence s) fok_buy) s)"
  by code_simp

text \<open>
  Scenario 3 of the specification: against asks of 50 at 10001 and 30 at 10002, a buy
  FOK order for 100 at 10002 produces no trade and ends cancelled, the book unchanged.
\<close>

theorem fok_killed_atomically_witness:
  "returns_with (run 5 (\<lambda>n. n) two_asks (new_OrderBook ''TEST''))
     (\<lambda>s. level_view s (asks s) = [(10001, 50, 1, [50]), (10002, 30, 1, [30])] \<and>
          req_type fok_buy = FOK \<and>
          returns_with (add_order 5 (\<lambda>n. n) fok_buy s)
            (\<lambda>(a, s'). a = allocated s \<and>
               trades s' = trades s \<and> bids s' = bids s \<and> asks s' = asks s \<and>
               (\<forall>b. b \<noteq> a \<longrightarrow> arena s' b = arena s b) \<and>
               status (arena s' a) = Cancelled \<and> leaves_qty (arena s' a) = 0 \<and>
               filled_qty (arena s' a) = 0 \<and>
               order_index s' = (order_index s)(req_id fok_buy := None)))"
proof -
  note ev = two_asks_evaluated [of "\<lambda>n. n"]
  then obtain s where s: "run 5 (\<lambda>n. n) two_asks (new_OrderBook ''TEST'') = Returns s"
    by (cases "run 5 (\<lambda>n. n) two_asks (new_OrderBook ''TEST'')") (simp_all add: returns_with_def)
  with ev have f: "level_view s (asks s) = [(10001, 50, 1, [50]), (10002, 30, 1, [30])]"
      "\<not> can_fill_completely (new_Order (clock_reads s) (next_sequence s) fok_buy) s"
    by (simp_all add: returns_with_def)
  have ty: "req_type fok_buy = FOK"
    by (simp add: fok_buy_def test_order_def)
  from fok_killed_atomically [OF ty, of "\<lambda>n. n" s 5, OF f(2) refl] s f(1) ty show ?thesis
    by (simp add: returns_with_def)
qed

text \<open>
  A request for a symbol with no book changes no book and no order: \<open>cancel_order\<close> and
  \<open>amend_order\<close> of the engine return false and leave the engine as it was;
  \<open>submit_order\<close> returns null and changes nothing but \<open>total_rejects\<close>, which it
  increments.
\<close>

theorem unknown_symbol_no_mutation:
  assumes "books e nm = None"
  shows "(c_string (cancel_symbol creq) = nm \<longrightarrow> engine_cancel_order clk creq e = (False, e)) \<and>
         (c_string (amend_symbol areq) = nm \<longrightarrow> engine_amend_order n clk areq e = Returns (False, e)) \<and>
         (c_string (req_symbol req) = nm \<longrightarrow>
            submit_order n clk req e =
              Returns (None, e\<lparr> stats := (stats e)\<lparr> total_rejects := total_rejects (stats e) + 1 \<rparr> \<rparr>))"
  using assms
  by (auto simp: engine_cancel_order_def engine_amend_order_def submit_order_def)

theorem unknown_symbol_no_mutation_witness:
  "books new_MatchingEngine ''NONE'' = None \<and>
   c_string (cancel_symbol unknown_cancel) = ''NONE'' \<and>
   engine_cancel_order (\<lambda>n. n) unknown_cancel new_MatchingEngine = (False, new_MatchingEngine) \<and>
   c_string (amend_symbol unknown_amend) = ''NONE'' \<and>
   engine_amend_order 5 (\<lambda>n. n) unknown_amend new_MatchingEngine = Returns (False, new_MatchingEngine) \<and>
   c_string (req_symbol unknown_order) = ''NONE'' \<and>
   submit_order 5 (\<lambda>n. n) unknown_order new_MatchingEngine =
     Returns (None, new_MatchingEngine\<lparr> stats := (stats new_MatchingEngine)
        \<lparr> total_rejects := total_rejects (stats new_MatchingEngine) + 1 \<rparr> \<rparr>)"
proof -
  have none: "books new_MatchingEngine ''NONE'' = None"
    by (simp add: new_MatchingEngine_def)
  have syms: "c_string (cancel_symbol unknown_cancel) = ''NONE''"
      "c_string (amend_symbol unknown_amend) = ''NONE''"
      "c_string (req_symbol unknown_order) = ''NONE''"
    by (simp_all add: c_string_def unknown_cancel_def unknown_amend_def unknown_order_def)
  from unknown_symbol_no_mutation [OF none, of unknown_cancel "\<lambda>n. n" unknown_amend 5 unknown_order]
    none syms
  show ?thesis
    by simp
qed

section \<open>The scenarios of the specification\<close>

text \<open>
  Scenario 2, price improvement for the aggressor: a buy limit order at 10010 against a
  resting sell limit order at 10005 trades at 10005, the resting order's price.
\<close>

theorem price_improvement_for_aggressor:
  "returns_with (run 5 clk resting_ask (new_OrderBook ''TEST''))
     (\<lambda>s. trades s = [] \<and>
        returns_with (add_order 5 clk crossing_buy s)
          (\<lambda>(a, s'). map (\<lambda>t. (trade_price t, trade_quantity t, aggressor t, buy_order_id t,
                                 sell_order_id t)) (trades s') = [(10005, 100, Buy, 2, 1)] \<and>
               bids s' = [] \<and> asks s' = []))"
  by code_simp

text \<open>
  Scenario 4, amend-down preserves priority: of two buy orders for 500 at 10000, the first
  is amended to 200; a sell market order for 300 trades 200 with the first and 100 with
  the second, and the level is left with a total of 400.
\<close>

theorem amend_down_keeps_priority:
  "returns_with (run 5 clk (two_buys_500 @ [AmendOrder (test_amend 1 0 200)]) (new_OrderBook ''TEST''))
     (\<lambda>s. returns_with (add_order 5 clk sell_300 s)
          (\<lambda>(a, s'). map trade_report (trades s') = [(1, 200, 10000), (2, 100, 10000)] \<and>
                level_view s' (bids s') = [(10000, 400, 1, [400])]))"
  by code_simp

text \<open>
  Scenario 5, amend-up loses priority: the first order is amended to 800 and moves behind
  the second, which a sell market order for 300 then trades with.
\<close>

theorem amend_up_loses_priority:
  "returns_with (run 5 clk (two_buys_500 @ [AmendOrder (test_amend 1 10000 800)]) (new_OrderBook ''TEST''))
     (\<lambda>s. resting_orders s (bids s) = [(10000, [1, 0])] \<and>
        returns_with (add_order 5 clk sell_300 s)
          (\<lambda>(a, s'). map trade_report (trades s') = [(2, 300, 10000)] \<and>
                level_view s' (bids s') = [(10000, 1000, 2, [200, 800])]))"
  by code_simp

end
